theory Spec2Isabelle
  imports Complex_Main "HOL-Library.Word" "HOL-Library.Log_Nat"
begin

section \<open>Soil Moisture Guard firmware: embedding of main.cpp\<close>

text \<open>
  The firmware targets the ATmega328P (the source sets \<open>CLKPR\<close>). There \<open>uint8_t\<close> and
  \<open>uint16_t\<close> are 8 and 16 bit words, and both \<open>float\<close> and \<open>double\<close> are IEEE 754
  binary32. Analog readings, the display and the pumps are the outside world: readings are
  an input of each cycle, display refreshes and pump runs are recorded in a trace.
\<close>

type_synonym u8 = "8 word"
type_synonym u16 = "16 word"

subsection \<open>Binary32 arithmetic\<close>

text \<open>
  A \<open>float\<close> is modelled by the rational it denotes. Every arithmetic operation of the
  source is the exact operation followed by \<open>f32_round\<close>, rounding to the nearest binary32
  value with ties to the even significand (24 bit significand, gradual underflow below
  \<open>2 powi (- 126)\<close>). Overflow to infinity is not modelled: the magnitudes in this program
  stay below \<open>2 ^ 14\<close>.
\<close>

definition round_half_even :: "rat \<Rightarrow> int" where
  "round_half_even x =
     (let f = \<lfloor>x\<rfloor>; r = x - of_int f in
      if r < 1 / 2 then f else if 1 / 2 < r then f + 1 else if even f then f else f + 1)"

text \<open>For \<open>0 < x\<close>, \<open>ilog2 x\<close> is the binary exponent \<open>e\<close> with \<open>2 powi e \<le> x < 2 powi (e + 1)\<close>.\<close>

definition ilog2 :: "rat \<Rightarrow> int" where
  "ilog2 x =
     (let (n, d) = quotient_of x;
          k = bitlen n - bitlen d
      in if 2 powi k \<le> x then k else k - 1)"

definition f32_round :: "rat \<Rightarrow> rat" where
  "f32_round x =
     (if x = 0 then 0
      else let q = 2 powi (max (ilog2 \<bar>x\<bar>) (- 126) - 23)
           in of_int (round_half_even (x / q)) * q)"

subsection \<open>Configuration and calibration constants\<close>

definition NUMBER_OF_CHANNELS :: nat where "NUMBER_OF_CHANNELS = 4"
definition WET_MEASUREMENT :: int where "WET_MEASUREMENT = 150"
definition DRY_MEASUREMENT :: int where "DRY_MEASUREMENT = 660"
definition NUMBER_OF_MEASUREMENT_SAMPLES :: nat where "NUMBER_OF_MEASUREMENT_SAMPLES = 4"

subsection \<open>convertMeasurementToPercent\<close>

text \<open>
  Arduino's \<open>min\<close> and \<open>max\<close> are the macros \<open>((a)<(b)?(a):(b))\<close> and
  \<open>((a)>(b)?(a):(b))\<close>; here both arguments are converted to \<open>float\<close>. The cast to
  \<open>uint8_t\<close> truncates towards zero.
\<close>

definition min_macro :: "rat \<Rightarrow> rat \<Rightarrow> rat" where
  "min_macro a b = (if a < b then a else b)"

definition max_macro :: "rat \<Rightarrow> rat \<Rightarrow> rat" where
  "max_macro a b = (if a > b then a else b)"

definition float_to_u8 :: "rat \<Rightarrow> u8" where
  "float_to_u8 x = word_of_int (if 0 \<le> x then \<lfloor>x\<rfloor> else \<lceil>x\<rceil>)"

text \<open>The locals \<open>a\<close>, \<open>b\<close> and \<open>percentage\<close> of the source.\<close>

definition coeff_a :: rat where
  "coeff_a = f32_round (100 / of_int (WET_MEASUREMENT - DRY_MEASUREMENT))"

definition coeff_b :: rat where
  "coeff_b = f32_round (of_int (- DRY_MEASUREMENT) * coeff_a)"

definition percentage_of :: "u16 \<Rightarrow> rat" where
  "percentage_of measurement = f32_round (f32_round (of_int (uint measurement) * coeff_a) + coeff_b)"

definition convertMeasurementToPercent :: "u16 \<Rightarrow> u8" where
  "convertMeasurementToPercent measurement =
     float_to_u8 (max_macro 0 (min_macro 99 (percentage_of measurement)))"

subsection \<open>Channel state\<close>

datatype pin = A0 | A1 | A2 | A3 | A4 | A5 | A6

definition MOIST_REF :: pin where "MOIST_REF = A4"

record ChannelState_T =
  pump_duration :: u8
  max_pump_attempts :: u8
  pump_attempts :: u8
  moisture_level :: u16
  moisture_level_raw :: u16
  moisture_reference_level :: u16
  sensor_analog_pin :: pin
  sensor_dec :: u8
  pump_dec :: u8

text \<open>
  The global array \<open>channel_state[NUMBER_OF_CHANNELS]\<close> with its initial values
  (\<open>PUMPn_DURATION = 10\<close>, \<open>PUMPn_MAX_ATTEMPTS = 3\<close>).
\<close>

definition channel_state :: "ChannelState_T list" where
  "channel_state =
    [\<lparr>pump_duration = 10, max_pump_attempts = 3, pump_attempts = 0, moisture_level = 99,
      moisture_level_raw = 0, moisture_reference_level = 25, sensor_analog_pin = A0,
      sensor_dec = 4, pump_dec = 0\<rparr>,
     \<lparr>pump_duration = 10, max_pump_attempts = 3, pump_attempts = 0, moisture_level = 99,
      moisture_level_raw = 0, moisture_reference_level = 25, sensor_analog_pin = A1,
      sensor_dec = 5, pump_dec = 1\<rparr>,
     \<lparr>pump_duration = 10, max_pump_attempts = 3, pump_attempts = 0, moisture_level = 99,
      moisture_level_raw = 0, moisture_reference_level = 25, sensor_analog_pin = A2,
      sensor_dec = 6, pump_dec = 2\<rparr>,
     \<lparr>pump_duration = 10, max_pump_attempts = 3, pump_attempts = 0, moisture_level = 99,
      moisture_level_raw = 0, moisture_reference_level = 25, sensor_analog_pin = A3,
      sensor_dec = 7, pump_dec = 3\<rparr>]"

subsection \<open>almostEqual\<close>

text \<open>
  The arguments are \<open>uint8_t\<close>; \<open>max(a,b) - min(a,b)\<close> and the comparison are computed
  on the promoted integers.
\<close>

definition almostEqual :: "u8 \<Rightarrow> u8 \<Rightarrow> u8 \<Rightarrow> bool" where
  "almostEqual a b absdiff =
     (uint (if a > b then a else b) - uint (if a < b then a else b) \<le> uint absdiff)"

subsection \<open>updateState\<close>

text \<open>
  The analog inputs of one cycle: \<open>adc i j p\<close> is what \<open>analogRead(p)\<close> returns in the
  \<open>j\<close>-th sampling round of channel \<open>i\<close>, as the 16 bit value that is added to the
  accumulator.
\<close>

type_synonym adc = "nat \<Rightarrow> nat \<Rightarrow> pin \<Rightarrow> u16"

text \<open>
  The inner loop \<open>for (j = 0; j < NUMBER_OF_MEASUREMENT_SAMPLES; j++)\<close>, with the bound as
  the parameter \<open>n\<close>; the accumulators are \<open>uint16_t\<close> and wrap.
\<close>

function sample_loop ::
  "(nat \<Rightarrow> pin \<Rightarrow> u16) \<Rightarrow> pin \<Rightarrow> nat \<Rightarrow> nat \<Rightarrow> u16 \<times> u16 \<Rightarrow> u16 \<times> u16" where
  "sample_loop rd p n j (measurement, measurement_ref) =
     (if j < n
      then sample_loop rd p n (Suc j) (measurement + rd j p, measurement_ref + rd j MOIST_REF)
      else (measurement, measurement_ref))"
  by pat_completeness auto
termination
  by (relation "measure (\<lambda>(rd, p, n, j, acc). n - j)") auto

text \<open>The averaged raw readings \<open>measurement\<close> and \<open>measurement_ref\<close> of one channel.\<close>

definition readChannel :: "(nat \<Rightarrow> pin \<Rightarrow> u16) \<Rightarrow> ChannelState_T \<Rightarrow> u16 \<times> u16" where
  "readChannel rd c =
     (let (measurement, measurement_ref) =
            sample_loop rd (sensor_analog_pin c) NUMBER_OF_MEASUREMENT_SAMPLES 0 (0, 0)
      in (measurement div word_of_nat NUMBER_OF_MEASUREMENT_SAMPLES,
          measurement_ref div word_of_nat NUMBER_OF_MEASUREMENT_SAMPLES))"

text \<open>
  The three conditional statements that end the body of the channel loop, each on the
  channel and the \<open>update\<close> flag. The stored levels are \<open>uint16_t\<close> and are converted to
  \<open>uint8_t\<close> when passed to \<open>almostEqual\<close>.
\<close>

definition storeMoisture ::
  "u8 \<Rightarrow> u16 \<Rightarrow> ChannelState_T \<times> bool \<Rightarrow> ChannelState_T \<times> bool" where
  "storeMoisture percentage measurement s =
     (case s of (c, update) \<Rightarrow>
        if \<not> almostEqual (ucast (moisture_level c)) percentage 2
        then (c\<lparr>moisture_level := ucast percentage, moisture_level_raw := measurement\<rparr>, True)
        else (c, update))"

definition storeReference :: "u8 \<Rightarrow> ChannelState_T \<times> bool \<Rightarrow> ChannelState_T \<times> bool" where
  "storeReference percentage_ref s =
     (case s of (c, update) \<Rightarrow>
        if \<not> almostEqual (ucast (moisture_reference_level c)) percentage_ref 2
        then (c\<lparr>moisture_reference_level := ucast percentage_ref\<rparr>, True)
        else (c, update))"

definition resetAttempts :: "ChannelState_T \<times> bool \<Rightarrow> ChannelState_T \<times> bool" where
  "resetAttempts s =
     (case s of (c, update) \<Rightarrow>
        if moisture_level c \<ge> moisture_reference_level c
        then (c\<lparr>pump_attempts := 0\<rparr>, update)
        else (c, True))"

text \<open>The body of the channel loop of \<open>updateState\<close>.\<close>

definition updateChannel ::
  "(nat \<Rightarrow> pin \<Rightarrow> u16) \<Rightarrow> ChannelState_T \<Rightarrow> bool \<Rightarrow> ChannelState_T \<times> bool" where
  "updateChannel rd c update =
     (let (measurement, measurement_ref) = readChannel rd c;
          percentage = convertMeasurementToPercent measurement;
          percentage_ref = (ucast (measurement_ref div 10) :: u8)
      in resetAttempts
           (storeReference percentage_ref
              (storeMoisture percentage measurement (c, update))))"

function updateState_loop ::
  "adc \<Rightarrow> nat \<Rightarrow> ChannelState_T list \<times> bool \<Rightarrow> ChannelState_T list \<times> bool" where
  "updateState_loop adc i (cs, update) =
     (if i < NUMBER_OF_CHANNELS
      then (let (c, update) = updateChannel (adc i) (cs ! i) update
            in updateState_loop adc (Suc i) (cs[i := c], update))
      else (cs, update))"
  by pat_completeness auto
termination
  by (relation "measure (\<lambda>(adc, i, s). NUMBER_OF_CHANNELS - i)") auto

definition updateState :: "adc \<Rightarrow> ChannelState_T list \<Rightarrow> ChannelState_T list \<times> bool" where
  "updateState adc cs = updateState_loop adc 0 (cs, False)"

subsection \<open>updateDisplay and runPumps\<close>

text \<open>
  What one refresh prints per channel: the channel number, the moisture level and its
  colour, the raw value, the attempt counter and its colour, and the colour of the bar.
  The pixel geometry is left out.
\<close>

datatype colour = EPD_BLACK | EPD_RED

record row =
  row_number :: nat
  row_level :: u16
  row_level_colour :: colour
  row_raw :: u16
  row_attempts :: u8
  row_attempts_colour :: colour
  row_bar_colour :: colour

text \<open>
  The trace of a cycle: a full display refresh with its rows, or a pump run of channel
  \<open>i\<close> on decoder output \<open>pump_dec\<close> for \<open>pump_duration\<close> seconds.
\<close>

datatype event = Refresh "row list" | RunPump nat u8 u8

definition displayRow :: "nat \<Rightarrow> ChannelState_T \<Rightarrow> row" where
  "displayRow i c =
     \<lparr>row_number = i + 1,
      row_level = moisture_level c,
      row_level_colour =
        (if moisture_level c < moisture_reference_level c then EPD_RED else EPD_BLACK),
      row_raw = moisture_level_raw c,
      row_attempts = pump_attempts c,
      row_attempts_colour =
        (if pump_attempts c \<ge> max_pump_attempts c then EPD_RED else EPD_BLACK),
      row_bar_colour =
        (if moisture_level c < moisture_reference_level c then EPD_RED else EPD_BLACK)\<rparr>"

definition updateDisplay :: "ChannelState_T list \<Rightarrow> event list" where
  "updateDisplay cs = [Refresh (map (\<lambda>i. displayRow i (cs ! i)) [0..<NUMBER_OF_CHANNELS])]"

text \<open>The body of the channel loop of \<open>runPumps\<close>.\<close>

definition runPump :: "nat \<Rightarrow> ChannelState_T \<Rightarrow> ChannelState_T \<times> event list" where
  "runPump i c =
     (if moisture_level c < moisture_reference_level c
      then (if pump_attempts c < max_pump_attempts c
            then (c\<lparr>pump_attempts := pump_attempts c + 1\<rparr>,
                  [RunPump i (pump_dec c) (pump_duration c)])
            else (c, []))
      else (c, []))"

function runPumps_loop ::
  "nat \<Rightarrow> ChannelState_T list \<times> event list \<Rightarrow> ChannelState_T list \<times> event list" where
  "runPumps_loop i (cs, tr) =
     (if i < NUMBER_OF_CHANNELS
      then (let (c, ev) = runPump i (cs ! i)
            in runPumps_loop (Suc i) (cs[i := c], tr @ ev))
      else (cs, tr))"
  by pat_completeness auto
termination
  by (relation "measure (\<lambda>(i, s). NUMBER_OF_CHANNELS - i)") auto

definition runPumps :: "ChannelState_T list \<Rightarrow> ChannelState_T list \<times> event list" where
  "runPumps cs = runPumps_loop 0 (cs, [])"

subsection \<open>loop\<close>

text \<open>One pass of \<open>loop()\<close> up to the sleep: the new channel array and the trace.\<close>

definition loop :: "adc \<Rightarrow> ChannelState_T list \<Rightarrow> ChannelState_T list \<times> event list" where
  "loop adc cs =
     (let (cs, hasStateUpdate) = updateState adc cs
      in if hasStateUpdate
         then (let shown = updateDisplay cs; (cs, pumps) = runPumps cs in (cs, shown @ pumps))
         else (cs, []))"

text \<open>Consecutive cycles, one analog input per cycle.\<close>

fun cycles :: "adc list \<Rightarrow> ChannelState_T list \<Rightarrow> ChannelState_T list" where
  "cycles [] cs = cs"
| "cycles (adc # adcs) cs = cycles adcs (fst (loop adc cs))"

text \<open>
  The channel arrays the firmware can hold when a cycle starts, with every cycle's analog
  input satisfying \<open>P\<close>.
\<close>

inductive reachable :: "(adc \<Rightarrow> bool) \<Rightarrow> ChannelState_T list \<Rightarrow> bool" for P where
  reachable_init: "reachable P channel_state"
| reachable_loop: "reachable P cs \<Longrightarrow> P adc \<Longrightarrow> reachable P (fst (loop adc cs))"

text \<open>A 10 bit converter: every reading is at most 1023.\<close>

definition adc_10bit :: "adc \<Rightarrow> bool" where
  "adc_10bit adc = (\<forall>i j p. adc i j p \<le> 1023)"

text \<open>An input on which every sensor reads \<open>s\<close> and the reference potentiometer \<open>r\<close>.\<close>

definition steady_adc :: "u16 \<Rightarrow> u16 \<Rightarrow> adc" where
  "steady_adc s r = (\<lambda>i j p. if p = MOIST_REF then r else s)"

text \<open>The three situations of a channel that the retry policy distinguishes.\<close>

datatype retry_state = OK | DRY | EXHAUSTED

definition retry_state_of :: "ChannelState_T \<Rightarrow> retry_state" where
  "retry_state_of c =
     (if moisture_level c \<ge> moisture_reference_level c then OK
      else if pump_attempts c < max_pump_attempts c then DRY
      else EXHAUSTED)"

text \<open>
  What holds of every channel at the start of every cycle: the attempts are within their
  maximum, a channel at or above its reference has no attempts, and the level is a percentage.
\<close>

definition channel_inv :: "ChannelState_T \<Rightarrow> bool" where
  "channel_inv c =
     (pump_attempts c \<le> max_pump_attempts c
      \<and> (moisture_level c \<ge> moisture_reference_level c \<longrightarrow> pump_attempts c = 0)
      \<and> moisture_level c \<le> 99)"

text \<open>Any analog input at all.\<close>

definition any_adc :: "adc \<Rightarrow> bool" where
  "any_adc adc = True"

text \<open>The loops are unfolded one iteration at a time, on request.\<close>

declare sample_loop.simps [simp del]
declare updateState_loop.simps [simp del]
declare runPumps_loop.simps [simp del]

section \<open>Properties of the rounding\<close>

lemma round_half_even_mono: "x \<le> y \<Longrightarrow> round_half_even x \<le> round_half_even y"
proof -
  assume xy: "x \<le> y"
  have f: "\<lfloor>x\<rfloor> \<le> \<lfloor>y\<rfloor>" using xy by (rule floor_mono)
  show ?thesis
  proof (cases "\<lfloor>x\<rfloor> = \<lfloor>y\<rfloor>")
    case True
    then show ?thesis using xy by (auto simp: round_half_even_def Let_def)
  next
    case False
    with f have "\<lfloor>x\<rfloor> + 1 \<le> \<lfloor>y\<rfloor>" by simp
    moreover have "round_half_even x \<le> \<lfloor>x\<rfloor> + 1" by (simp add: round_half_even_def Let_def)
    moreover have "\<lfloor>y\<rfloor> \<le> round_half_even y" by (simp add: round_half_even_def Let_def)
    ultimately show ?thesis by linarith
  qed
qed

lemma round_half_even_of_int: "round_half_even (of_int n) = n"
  by (simp add: round_half_even_def)

lemma round_half_even_minus: "round_half_even (- x) = - round_half_even x"
proof (cases "x = of_int \<lfloor>x\<rfloor>")
  case True
  then obtain n where "x = of_int n" ..
  then have "- x = of_int (- n)" by simp
  then show ?thesis using \<open>x = of_int n\<close> round_half_even_of_int by metis
next
  case False
  then have lt: "of_int \<lfloor>x\<rfloor> < x" by (metis of_int_floor_le order_less_le)
  have fm: "\<lfloor>- x\<rfloor> = - \<lfloor>x\<rfloor> - 1"
    using lt by (intro floor_unique) (auto, linarith)
  show ?thesis
    using lt unfolding round_half_even_def Let_def fm
    by (auto simp: algebra_simps)
qed

lemma ilog2_bracket:
  assumes "0 < x" and q: "quotient_of x = (n, d)"
  defines "k \<equiv> int (floorlog 2 (nat n)) - int (floorlog 2 (nat d))"
  shows "2 powi (k - 1) \<le> x" and "x < 2 powi (k + 1)"
proof -
  have d: "0 < d" using q quotient_of_denom_pos by blast
  have x: "x = of_int n / of_int d" using q by (rule quotient_of_div)
  have n: "0 < n" using assms(1) d x by (simp add: zero_less_divide_iff)
  define a b where "a = floorlog 2 (nat n)" and "b = floorlog 2 (nat d)"
  have a: "2 ^ (a - 1) \<le> nat n" "nat n < 2 ^ a"
    using floorlog_bounds[of "nat n" 2] n by (auto simp: a_def)
  have b: "2 ^ (b - 1) \<le> nat d" "nat d < 2 ^ b"
    using floorlog_bounds[of "nat d" 2] d by (auto simp: b_def)
  have a1: "1 \<le> a" using n by (simp add: a_def floorlog_def)
  have b1: "1 \<le> b" using d by (simp add: b_def floorlog_def)
  have xn: "x = of_nat (nat n) / of_nat (nat d)" using x n d by simp
  have k: "k = int a - int b" by (simp add: k_def a_def b_def)
  have k1: "k - 1 = int (a - 1) - int b" and k2: "k + 1 = int a - int (b - 1)"
    using a1 b1 k by simp_all
  have e1: "(2::rat) powi (k - 1) = 2 ^ (a - 1) / 2 ^ b"
    unfolding k1 by (simp add: power_int_diff)
  have e2: "(2::rat) powi (k + 1) = 2 ^ a / 2 ^ (b - 1)"
    unfolding k2 by (simp add: power_int_diff)
  have ra1: "(2::rat) ^ (a - 1) \<le> of_nat (nat n)"
  proof -
    have "(of_nat (2 ^ (a - 1)) :: rat) \<le> of_nat (nat n)"
      using a(1) by (simp only: of_nat_le_iff)
    then show ?thesis by simp
  qed
  have ra2: "(of_nat (nat n) :: rat) < 2 ^ a"
  proof -
    have "(of_nat (nat n) :: rat) < of_nat (2 ^ a)"
      using a(2) by (simp only: of_nat_less_iff)
    then show ?thesis by simp
  qed
  have rb1: "(2::rat) ^ (b - 1) \<le> of_nat (nat d)"
  proof -
    have "(of_nat (2 ^ (b - 1)) :: rat) \<le> of_nat (nat d)"
      using b(1) by (simp only: of_nat_le_iff)
    then show ?thesis by simp
  qed
  have rb2: "(of_nat (nat d) :: rat) \<le> 2 ^ b"
  proof -
    have "(of_nat (nat d) :: rat) < of_nat (2 ^ b)"
      using b(2) by (simp only: of_nat_less_iff)
    then show ?thesis by simp
  qed
  have dpos: "(0::rat) < of_nat (nat d)" using d by simp
  show "2 powi (k - 1) \<le> x"
    unfolding e1 xn by (rule frac_le) (use ra1 rb2 dpos in simp_all)
  show "x < 2 powi (k + 1)"
    unfolding e2 xn by (rule frac_less) (use ra2 rb1 in simp_all)
qed

lemma ilog2_bounds:
  assumes "0 < x"
  shows "2 powi (ilog2 x) \<le> x" and "x < 2 powi (ilog2 x + 1)"
proof -
  obtain n d where q: "quotient_of x = (n, d)" by (cases "quotient_of x")
  note br = ilog2_bracket[OF assms q]
  show "2 powi (ilog2 x) \<le> x"
    using br(1) by (simp add: ilog2_def q Let_def bitlen_def)
  show "x < 2 powi (ilog2 x + 1)"
    using br(2) by (auto simp: ilog2_def q Let_def bitlen_def)
qed

lemma ilog2_mono:
  assumes "0 < x" and "x \<le> y"
  shows "ilog2 x \<le> ilog2 y"
proof (rule ccontr)
  assume "\<not> ilog2 x \<le> ilog2 y"
  then have "ilog2 y + 1 \<le> ilog2 x" by simp
  then have "(2::rat) powi (ilog2 y + 1) \<le> 2 powi (ilog2 x)"
    by (intro power_int_increasing) simp_all
  moreover have "y < 2 powi (ilog2 y + 1)" using assms by (intro ilog2_bounds) simp
  moreover have "2 powi (ilog2 x) \<le> x" using assms by (intro ilog2_bounds)
  ultimately show False using assms(2) by linarith
qed

lemma f32_round_pos_mono:
  assumes "0 < x" and "x \<le> y"
  shows "f32_round x \<le> f32_round y"
proof -
  define ex ey where "ex = max (ilog2 x) (- 126)" and "ey = max (ilog2 y) (- 126)"
  have y: "0 < y" using assms by simp
  have rx: "f32_round x = of_int (round_half_even (x / 2 powi (ex - 23))) * 2 powi (ex - 23)"
    using assms(1) by (simp add: f32_round_def ex_def Let_def)
  have ry: "f32_round y = of_int (round_half_even (y / 2 powi (ey - 23))) * 2 powi (ey - 23)"
    using y by (simp add: f32_round_def ey_def Let_def)
  have le: "ex \<le> ey" using ilog2_mono[OF assms] by (simp add: ex_def ey_def)
  have qpos: "\<And>e. (0::rat) < 2 powi e" by simp
  show ?thesis
  proof (cases "ex = ey")
    case True
    have "x / 2 powi (ey - 23) \<le> y / 2 powi (ey - 23)"
      using assms(2) by (simp add: divide_right_mono)
    then have "round_half_even (x / 2 powi (ey - 23)) \<le> round_half_even (y / 2 powi (ey - 23))"
      by (rule round_half_even_mono)
    then show ?thesis unfolding rx ry True
      by (simp add: mult_right_mono)
  next
    case False
    with le have lt: "ex + 1 \<le> ey" by simp
    then have eyl: "ey = ilog2 y" by (auto simp: ey_def ex_def max_def split: if_splits)
    have "x < 2 powi (ilog2 x + 1)" using assms(1) by (rule ilog2_bounds)
    also have "\<dots> \<le> 2 powi (ex + 1)"
      by (intro power_int_increasing) (simp_all add: ex_def)
    finally have "x / 2 powi (ex - 23) \<le> 2 powi (ex + 1) / 2 powi (ex - 23)"
      by (simp add: divide_right_mono)
    also have "\<dots> = of_int (2 ^ 24)"
      by (simp add: power_int_diff[symmetric])
    finally have "round_half_even (x / 2 powi (ex - 23)) \<le> 2 ^ 24"
      using round_half_even_mono round_half_even_of_int by metis
    then have "f32_round x \<le> of_int (2 ^ 24) * 2 powi (ex - 23)"
      unfolding rx by (intro mult_right_mono) (simp_all only: of_int_le_iff, simp)
    also have "\<dots> = 2 powi (ex + 1)"
      using power_int_add[of "2::rat" 24 "ex - 23"] by (simp add: add.commute)
    also have "\<dots> \<le> 2 powi ey"
      using lt by (intro power_int_increasing) simp_all
    finally have up: "f32_round x \<le> 2 powi ey" .
    have "2 powi ey \<le> y" unfolding eyl using y by (rule ilog2_bounds)
    then have "2 powi ey / 2 powi (ey - 23) \<le> y / 2 powi (ey - 23)"
      by (simp add: divide_right_mono)
    moreover have "(2::rat) powi ey / 2 powi (ey - 23) = of_int (2 ^ 23)"
      by (simp add: power_int_diff[symmetric])
    ultimately have "2 ^ 23 \<le> round_half_even (y / 2 powi (ey - 23))"
      using round_half_even_mono round_half_even_of_int by metis
    then have "of_int (2 ^ 23) * 2 powi (ey - 23) \<le> f32_round y"
      unfolding ry by (intro mult_right_mono) (simp_all only: of_int_le_iff, simp)
    moreover have "of_int (2 ^ 23) * 2 powi (ey - 23) = (2::rat) powi ey"
      using power_int_add[of "2::rat" 23 "ey - 23"] by simp
    ultimately show ?thesis using up by linarith
  qed
qed

lemma f32_round_minus: "f32_round (- x) = - f32_round x"
  by (simp add: f32_round_def Let_def round_half_even_minus)

lemma f32_round_nonneg:
  assumes "0 \<le> x"
  shows "0 \<le> f32_round x"
proof -
  have "round_half_even 0 \<le> round_half_even (x / q)" if "0 < q" for q
    using assms that by (intro round_half_even_mono) simp
  then have "0 \<le> round_half_even (x / 2 powi e)" for e
    using round_half_even_of_int[of 0] by simp
  then show ?thesis by (simp add: f32_round_def Let_def)
qed

lemma f32_round_mono:
  assumes "x \<le> y"
  shows "f32_round x \<le> f32_round y"
proof -
  consider "0 < x" | "x \<le> 0" "0 \<le> y" | "y < 0" by linarith
  then show ?thesis
  proof cases
    case 1
    then show ?thesis using assms by (rule f32_round_pos_mono)
  next
    case 2
    have "0 \<le> f32_round (- x)" using 2(1) by (intro f32_round_nonneg) simp
    then have "f32_round x \<le> 0" by (simp add: f32_round_minus)
    moreover have "0 \<le> f32_round y" using 2(2) by (rule f32_round_nonneg)
    ultimately show ?thesis by simp
  next
    case 3
    have "f32_round (- y) \<le> f32_round (- x)"
      using 3 assms by (intro f32_round_pos_mono) simp_all
    then show ?thesis by (simp add: f32_round_minus)
  qed
qed

section \<open>The moisture converter\<close>

lemma coeff_a_value: "coeff_a = - 13158601 / 67108864"
  unfolding coeff_a_def by code_simp

lemma coeff_b_value: "coeff_b = 4240565 / 32768"
  unfolding coeff_b_def coeff_a_value by code_simp

lemma percentage_of_antimono:
  assumes "m1 \<le> m2"
  shows "percentage_of m2 \<le> percentage_of m1"
proof -
  have "uint m1 \<le> uint m2" using assms by (simp add: word_le_def)
  then have "(of_int (uint m1) :: rat) \<le> of_int (uint m2)" by (simp only: of_int_le_iff)
  moreover have "coeff_a \<le> 0" by (simp add: coeff_a_value)
  ultimately have "of_int (uint m2) * coeff_a \<le> of_int (uint m1) * coeff_a"
    by (rule mult_right_mono_neg)
  then have "f32_round (of_int (uint m2) * coeff_a) + coeff_b
      \<le> f32_round (of_int (uint m1) * coeff_a) + coeff_b"
    by (simp add: f32_round_mono)
  then show ?thesis unfolding percentage_of_def by (rule f32_round_mono)
qed

lemma percentage_of_150: "percentage_of 150 = 13107201 / 131072"
  unfolding percentage_of_def coeff_a_value coeff_b_value by code_simp

lemma percentage_of_660: "percentage_of 660 = 0"
  unfolding percentage_of_def coeff_a_value coeff_b_value by code_simp

lemma percentage_of_405: "percentage_of 405 = 6553601 / 131072"
  unfolding percentage_of_def coeff_a_value coeff_b_value by code_simp

text \<open>The clamped and truncated percentage as an integer between 0 and 99.\<close>

lemma convert_uint:
  "uint (convertMeasurementToPercent m) = \<lfloor>max 0 (min 99 (percentage_of m))\<rfloor>"
proof -
  define c where "c = max 0 (min 99 (percentage_of m))"
  have c: "0 \<le> c" "c \<le> 99" by (simp_all add: c_def)
  have eq: "max_macro 0 (min_macro 99 (percentage_of m)) = c"
    by (simp add: max_macro_def min_macro_def c_def max_def min_def)
  have "0 \<le> \<lfloor>c\<rfloor>" "\<lfloor>c\<rfloor> \<le> 99" using c by (simp_all add: floor_le_iff le_floor_iff)
  then have "uint (word_of_int \<lfloor>c\<rfloor> :: u8) = \<lfloor>c\<rfloor>"
    by (simp add: uint_word_of_int take_bit_int_eq_self)
  then show ?thesis
    unfolding convertMeasurementToPercent_def eq float_to_u8_def using c by (simp add: c_def)
qed

lemma convert_le_99: "convertMeasurementToPercent m \<le> 99"
proof -
  have "\<lfloor>max 0 (min 99 (percentage_of m))\<rfloor> \<le> 99" by (simp add: floor_le_iff)
  then show ?thesis by (simp add: word_le_def convert_uint)
qed

lemma convert_antimono:
  assumes "m1 \<le> m2"
  shows "convertMeasurementToPercent m2 \<le> convertMeasurementToPercent m1"
proof -
  have "max 0 (min 99 (percentage_of m2)) \<le> max 0 (min 99 (percentage_of m1))"
    using percentage_of_antimono[OF assms] by (simp add: max_def min_def)
  then show ?thesis by (simp add: word_le_def convert_uint floor_mono)
qed

lemma convert_wet: 
  assumes "m \<le> 150"
  shows "convertMeasurementToPercent m = 99"
proof -
  have "percentage_of 150 \<le> percentage_of m" using assms by (rule percentage_of_antimono)
  then have "99 \<le> percentage_of m" by (simp add: percentage_of_150)
  then have "max 0 (min 99 (percentage_of m)) = 99" by (simp add: max_def min_def)
  then have "uint (convertMeasurementToPercent m) = uint (99 :: u8)" by (simp add: convert_uint)
  then show ?thesis by (simp only: word_uint_eq_iff)
qed

lemma convert_dry: 
  assumes "660 \<le> m"
  shows "convertMeasurementToPercent m = 0"
proof -
  have "percentage_of m \<le> percentage_of 660" using assms by (rule percentage_of_antimono)
  then have "percentage_of m \<le> 0" by (simp add: percentage_of_660)
  then have "max 0 (min 99 (percentage_of m)) = 0" by (simp add: max_def min_def)
  then have "uint (convertMeasurementToPercent m) = uint (0 :: u8)" by (simp add: convert_uint)
  then show ?thesis by (simp only: word_uint_eq_iff)
qed

lemma convert_405: "convertMeasurementToPercent 405 = 50"
proof -
  have "\<lfloor>(6553601 :: rat) / 131072\<rfloor> = 50" by (simp add: floor_eq_iff)
  then have "uint (convertMeasurementToPercent 405) = uint (50 :: u8)"
    by (simp add: convert_uint percentage_of_405)
  then show ?thesis by (simp only: word_uint_eq_iff)
qed

section \<open>The channel loops\<close>

lemma storeMoisture_flag:
  "fst (storeMoisture p m (c, u)) = fst (storeMoisture p m (c, False))"
  "snd (storeMoisture p m (c, u)) = (u \<or> snd (storeMoisture p m (c, False)))"
  by (simp_all add: storeMoisture_def)

lemma storeReference_flag:
  "fst (storeReference p (c, u)) = fst (storeReference p (c, False))"
  "snd (storeReference p (c, u)) = (u \<or> snd (storeReference p (c, False)))"
  by (simp_all add: storeReference_def)

lemma resetAttempts_flag:
  "fst (resetAttempts (c, u)) = fst (resetAttempts (c, False))"
  "snd (resetAttempts (c, u)) = (u \<or> snd (resetAttempts (c, False)))"
  by (simp_all add: resetAttempts_def)

lemma updateChannel_fst: "fst (updateChannel rd c u) = fst (updateChannel rd c False)"
proof -
  obtain m mr where r: "readChannel rd c = (m, mr)" by (cases "readChannel rd c")
  obtain c1 u1 where s1: "storeMoisture (convertMeasurementToPercent m) m (c, u) = (c1, u1)"
    by (cases "storeMoisture (convertMeasurementToPercent m) m (c, u)")
  obtain c1' u1' where s1': "storeMoisture (convertMeasurementToPercent m) m (c, False) = (c1', u1')"
    by (cases "storeMoisture (convertMeasurementToPercent m) m (c, False)")
  have c1: "c1' = c1" using storeMoisture_flag(1)[of "convertMeasurementToPercent m" m c u] s1 s1' by simp
  obtain c2 u2 where s2: "storeReference (ucast (mr div 10)) (c1, u1) = (c2, u2)"
    by (cases "storeReference (ucast (mr div 10)) (c1, u1)")
  obtain c2' u2' where s2': "storeReference (ucast (mr div 10)) (c1, u1') = (c2', u2')"
    by (cases "storeReference (ucast (mr div 10)) (c1, u1')")
  have c2: "c2' = c2"
    using storeReference_flag(1)[of "ucast (mr div 10)" c1 u1] storeReference_flag(1)[of "ucast (mr div 10)" c1 u1'] s2 s2' by simp
  show ?thesis
    using resetAttempts_flag(1)[of c2 u2] resetAttempts_flag(1)[of c2 u2']
    by (simp add: updateChannel_def r s1 s1' c1 s2 s2' c2)
qed

lemma updateChannel_snd: "snd (updateChannel rd c u) = (u \<or> snd (updateChannel rd c False))"
proof -
  obtain m mr where r: "readChannel rd c = (m, mr)" by (cases "readChannel rd c")
  obtain c1 u1 where s1: "storeMoisture (convertMeasurementToPercent m) m (c, u) = (c1, u1)"
    by (cases "storeMoisture (convertMeasurementToPercent m) m (c, u)")
  obtain c1' u1' where s1': "storeMoisture (convertMeasurementToPercent m) m (c, False) = (c1', u1')"
    by (cases "storeMoisture (convertMeasurementToPercent m) m (c, False)")
  have c1: "c1' = c1" and u1: "u1 = (u \<or> u1')"
    using storeMoisture_flag[of "convertMeasurementToPercent m" m c u] s1 s1' by simp_all
  obtain c2 u2 where s2: "storeReference (ucast (mr div 10)) (c1, u1) = (c2, u2)"
    by (cases "storeReference (ucast (mr div 10)) (c1, u1)")
  obtain c2' u2' where s2': "storeReference (ucast (mr div 10)) (c1, u1') = (c2', u2')"
    by (cases "storeReference (ucast (mr div 10)) (c1, u1')")
  have c2: "c2' = c2" and u2: "u2 = (u \<or> u2')"
    using storeReference_flag[of "ucast (mr div 10)" c1 u1] storeReference_flag[of "ucast (mr div 10)" c1 u1'] s2 s2' u1 by auto
  show ?thesis
    using resetAttempts_flag(2)[of c2 u2] resetAttempts_flag(2)[of c2 u2']
    by (auto simp add: updateChannel_def r s1 s1' c1 s2 s2' c2 u2)
qed

lemma updateState_loop_length:
  "length (fst (updateState_loop adc i (cs, u))) = length cs"
proof (induction adc i "(cs, u)" arbitrary: cs u rule: updateState_loop.induct)
  case (1 adc i cs update)
  show ?case
  proof (cases "i < NUMBER_OF_CHANNELS")
    case True
    obtain c u' where e: "updateChannel (adc i) (cs ! i) update = (c, u')"
      by (cases "updateChannel (adc i) (cs ! i) update")
    have step: "updateState_loop adc i (cs, update) = updateState_loop adc (Suc i) (cs[i := c], u')"
      using True e by (simp add: updateState_loop.simps[of adc i cs update])
    show ?thesis using "1.hyps"[OF True e[symmetric] refl] by (simp add: step)
  next
    case False
    then show ?thesis by (simp add: updateState_loop.simps[of adc i cs update])
  qed
qed

lemma updateState_loop_nth:
  "k < length cs \<Longrightarrow>
   fst (updateState_loop adc i (cs, u)) ! k =
     (if i \<le> k \<and> k < NUMBER_OF_CHANNELS then fst (updateChannel (adc k) (cs ! k) False)
      else cs ! k)"
proof (induction adc i "(cs, u)" arbitrary: cs u rule: updateState_loop.induct)
  case (1 adc i cs update)
  show ?case
  proof (cases "i < NUMBER_OF_CHANNELS")
    case True
    obtain c u' where e: "updateChannel (adc i) (cs ! i) update = (c, u')"
      by (cases "updateChannel (adc i) (cs ! i) update")
    have c: "c = fst (updateChannel (adc i) (cs ! i) False)"
      using e updateChannel_fst[of "adc i" "cs ! i" update] by simp
    have k: "k < length (cs[i := c])" using "1.prems" by simp
    have step: "updateState_loop adc i (cs, update) = updateState_loop adc (Suc i) (cs[i := c], u')"
      using True e by (simp add: updateState_loop.simps[of adc i cs update])
    show ?thesis
    proof (cases "k = i")
      case True
      then show ?thesis
        using \<open>i < NUMBER_OF_CHANNELS\<close> "1.hyps"[OF \<open>i < NUMBER_OF_CHANNELS\<close> e[symmetric] refl k] "1.prems" c
        by (simp add: step)
    next
      case False
      then show ?thesis
        using \<open>i < NUMBER_OF_CHANNELS\<close> "1.hyps"[OF \<open>i < NUMBER_OF_CHANNELS\<close> e[symmetric] refl k] "1.prems"
        by (auto simp: step)
    qed
  next
    case False
    then show ?thesis by (auto simp: updateState_loop.simps[of adc i cs update])
  qed
qed

lemma updateState_loop_flag:
  "snd (updateState_loop adc i (cs, u)) =
     (u \<or> (\<exists>k. i \<le> k \<and> k < NUMBER_OF_CHANNELS \<and> snd (updateChannel (adc k) (cs ! k) False)))"
proof (induction adc i "(cs, u)" arbitrary: cs u rule: updateState_loop.induct)
  case (1 adc i cs update)
  show ?case
  proof (cases "i < NUMBER_OF_CHANNELS")
    case True
    obtain c u' where e: "updateChannel (adc i) (cs ! i) update = (c, u')"
      by (cases "updateChannel (adc i) (cs ! i) update")
    have u': "u' = (update \<or> snd (updateChannel (adc i) (cs ! i) False))"
      using e updateChannel_snd[of "adc i" "cs ! i" update] by simp
    have nth: "cs[i := c] ! k = cs ! k" if "Suc i \<le> k" for k
      using that by simp
    have ex: "(\<exists>k. i \<le> k \<and> k < NUMBER_OF_CHANNELS \<and> Q k) =
        (Q i \<or> (\<exists>k. Suc i \<le> k \<and> k < NUMBER_OF_CHANNELS \<and> Q k))" for Q
      using True by (metis Suc_leD Suc_leI le_neq_implies_less order_refl)
    have step: "updateState_loop adc i (cs, update) = updateState_loop adc (Suc i) (cs[i := c], u')"
      using True e by (simp add: updateState_loop.simps[of adc i cs update])
    have "snd (updateState_loop adc i (cs, update)) =
        (u' \<or> (\<exists>k. Suc i \<le> k \<and> k < NUMBER_OF_CHANNELS \<and> snd (updateChannel (adc k) (cs[i := c] ! k) False)))"
      using "1.hyps"[OF True e[symmetric] refl] by (simp add: step)
    also have "\<dots> = (u' \<or> (\<exists>k. Suc i \<le> k \<and> k < NUMBER_OF_CHANNELS \<and> snd (updateChannel (adc k) (cs ! k) False)))"
      using nth by auto
    also have "\<dots> = (update \<or> (\<exists>k. i \<le> k \<and> k < NUMBER_OF_CHANNELS \<and> snd (updateChannel (adc k) (cs ! k) False)))"
      unfolding u' using ex[of "\<lambda>k. snd (updateChannel (adc k) (cs ! k) False)"] by blast
    finally show ?thesis .
  next
    case False
    then show ?thesis by (auto simp: updateState_loop.simps[of adc i cs update])
  qed
qed


lemma runPumps_loop_length: "length (fst (runPumps_loop i (cs, tr))) = length cs"
proof (induction i "(cs, tr)" arbitrary: cs tr rule: runPumps_loop.induct)
  case (1 i cs tr)
  show ?case
  proof (cases "i < NUMBER_OF_CHANNELS")
    case True
    obtain c ev where e: "runPump i (cs ! i) = (c, ev)" by (cases "runPump i (cs ! i)")
    have step: "runPumps_loop i (cs, tr) = runPumps_loop (Suc i) (cs[i := c], tr @ ev)"
      using True e by (simp add: runPumps_loop.simps[of i cs tr])
    show ?thesis using "1.hyps"[OF True e[symmetric] refl] by (simp add: step)
  next
    case False
    then show ?thesis by (simp add: runPumps_loop.simps[of i cs tr])
  qed
qed

lemma runPumps_loop_nth:
  "k < length cs \<Longrightarrow>
   fst (runPumps_loop i (cs, tr)) ! k =
     (if i \<le> k \<and> k < NUMBER_OF_CHANNELS then fst (runPump k (cs ! k)) else cs ! k)"
proof (induction i "(cs, tr)" arbitrary: cs tr rule: runPumps_loop.induct)
  case (1 i cs tr)
  show ?case
  proof (cases "i < NUMBER_OF_CHANNELS")
    case True
    obtain c ev where e: "runPump i (cs ! i) = (c, ev)" by (cases "runPump i (cs ! i)")
    have step: "runPumps_loop i (cs, tr) = runPumps_loop (Suc i) (cs[i := c], tr @ ev)"
      using True e by (simp add: runPumps_loop.simps[of i cs tr])
    have k: "k < length (cs[i := c])" using "1.prems" by simp
    note IH = "1.hyps"[OF True e[symmetric] refl k]
    show ?thesis
    proof (cases "k = i")
      case True
      then show ?thesis using \<open>i < NUMBER_OF_CHANNELS\<close> IH "1.prems" e by (simp add: step)
    next
      case False
      then show ?thesis using \<open>i < NUMBER_OF_CHANNELS\<close> IH "1.prems" by (auto simp: step)
    qed
  next
    case False
    then show ?thesis by (auto simp: runPumps_loop.simps[of i cs tr])
  qed
qed

lemma runPumps_loop_trace:
  "snd (runPumps_loop i (cs, tr)) =
     tr @ concat (map (\<lambda>k. snd (runPump k (cs ! k))) [i..<NUMBER_OF_CHANNELS])"
proof (induction i "(cs, tr)" arbitrary: cs tr rule: runPumps_loop.induct)
  case (1 i cs tr)
  show ?case
  proof (cases "i < NUMBER_OF_CHANNELS")
    case True
    obtain c ev where e: "runPump i (cs ! i) = (c, ev)" by (cases "runPump i (cs ! i)")
    have step: "runPumps_loop i (cs, tr) = runPumps_loop (Suc i) (cs[i := c], tr @ ev)"
      using True e by (simp add: runPumps_loop.simps[of i cs tr])
    have same: "map (\<lambda>k. snd (runPump k (cs[i := c] ! k))) [Suc i..<NUMBER_OF_CHANNELS] =
        map (\<lambda>k. snd (runPump k (cs ! k))) [Suc i..<NUMBER_OF_CHANNELS]"
      by (rule map_cong) simp_all
    show ?thesis
      using "1.hyps"[OF True e[symmetric] refl] True e
      by (simp add: step same upt_conv_Cons)
  next
    case False
    then show ?thesis by (simp add: runPumps_loop.simps[of i cs tr])
  qed
qed

lemma updateState_length: "length (fst (updateState adc cs)) = length cs"
  by (simp add: updateState_def updateState_loop_length)

lemma updateState_nth:
  "k < length cs \<Longrightarrow> k < NUMBER_OF_CHANNELS \<Longrightarrow>
   fst (updateState adc cs) ! k = fst (updateChannel (adc k) (cs ! k) False)"
  by (simp add: updateState_def updateState_loop_nth)

lemma updateState_flag:
  "snd (updateState adc cs) =
     (\<exists>k<NUMBER_OF_CHANNELS. snd (updateChannel (adc k) (cs ! k) False))"
  by (simp add: updateState_def updateState_loop_flag)

lemma runPumps_length: "length (fst (runPumps cs)) = length cs"
  by (simp add: runPumps_def runPumps_loop_length)

lemma runPumps_nth:
  "k < length cs \<Longrightarrow> k < NUMBER_OF_CHANNELS \<Longrightarrow> fst (runPumps cs) ! k = fst (runPump k (cs ! k))"
  by (simp add: runPumps_def runPumps_loop_nth)

lemma runPumps_trace:
  "snd (runPumps cs) = concat (map (\<lambda>k. snd (runPump k (cs ! k))) [0..<NUMBER_OF_CHANNELS])"
  by (simp add: runPumps_def runPumps_loop_trace)

text \<open>The fields of a channel after the body of the channel loop.\<close>

lemma updateChannel_config:
  "max_pump_attempts (fst (updateChannel rd c u)) = max_pump_attempts c"
  "pump_duration (fst (updateChannel rd c u)) = pump_duration c"
  "pump_dec (fst (updateChannel rd c u)) = pump_dec c"
  "sensor_dec (fst (updateChannel rd c u)) = sensor_dec c"
  "sensor_analog_pin (fst (updateChannel rd c u)) = sensor_analog_pin c"
  by (simp_all add: updateChannel_def storeMoisture_def storeReference_def resetAttempts_def
      Let_def split: prod.splits)

lemma updateChannel_level:
  "moisture_level (fst (updateChannel rd c u)) =
     (if \<not> almostEqual (ucast (moisture_level c)) (convertMeasurementToPercent (fst (readChannel rd c))) 2
      then ucast (convertMeasurementToPercent (fst (readChannel rd c))) else moisture_level c)"
  by (simp add: updateChannel_def storeMoisture_def storeReference_def resetAttempts_def
      Let_def split: prod.splits)

lemma updateChannel_raw:
  "moisture_level_raw (fst (updateChannel rd c u)) =
     (if \<not> almostEqual (ucast (moisture_level c)) (convertMeasurementToPercent (fst (readChannel rd c))) 2
      then fst (readChannel rd c) else moisture_level_raw c)"
  by (simp add: updateChannel_def storeMoisture_def storeReference_def resetAttempts_def
      Let_def split: prod.splits)

lemma updateChannel_reference:
  "moisture_reference_level (fst (updateChannel rd c u)) =
     (if \<not> almostEqual (ucast (moisture_reference_level c)) (ucast (snd (readChannel rd c) div 10)) 2
      then ucast (ucast (snd (readChannel rd c) div 10) :: u8) else moisture_reference_level c)"
  by (simp add: updateChannel_def storeMoisture_def storeReference_def resetAttempts_def
      Let_def split: prod.splits)

lemma updateChannel_attempts:
  "pump_attempts (fst (updateChannel rd c u)) =
     (if moisture_level (fst (updateChannel rd c u)) \<ge> moisture_reference_level (fst (updateChannel rd c u))
      then 0 else pump_attempts c)"
  by (simp add: updateChannel_def storeMoisture_def storeReference_def resetAttempts_def
      Let_def split: prod.splits)

lemma updateChannel_changed:
  "snd (updateChannel rd c False) =
     (\<not> almostEqual (ucast (moisture_level c)) (convertMeasurementToPercent (fst (readChannel rd c))) 2
      \<or> \<not> almostEqual (ucast (moisture_reference_level c)) (ucast (snd (readChannel rd c) div 10)) 2
      \<or> moisture_level (fst (updateChannel rd c False)) < moisture_reference_level (fst (updateChannel rd c False)))"
  by (auto simp add: updateChannel_def storeMoisture_def storeReference_def resetAttempts_def
      Let_def split: prod.splits)


lemma unat_ucast_u8_u16: "unat (ucast (p :: u8) :: u16) = unat p"
proof -
  have "unat p < 2 ^ 16" using unsigned_less[of p, where ?'a = nat] by simp
  then show ?thesis by (simp add: unsigned_ucast_eq take_bit_nat_eq_self)
qed

lemma ucast_u8_u16_id: "(ucast (ucast (p :: u8) :: u16) :: u8) = p"
  by (rule ucast_up_ucast_id) (simp add: is_up)

lemma runPump_level:
  "moisture_level (fst (runPump i c)) = moisture_level c"
  "moisture_reference_level (fst (runPump i c)) = moisture_reference_level c"
  "moisture_level_raw (fst (runPump i c)) = moisture_level_raw c"
  "max_pump_attempts (fst (runPump i c)) = max_pump_attempts c"
  by (simp_all add: runPump_def)

lemma runPump_attempts:
  "pump_attempts (fst (runPump i c)) =
     (if moisture_level c < moisture_reference_level c \<and> pump_attempts c < max_pump_attempts c
      then pump_attempts c + 1 else pump_attempts c)"
  by (simp add: runPump_def)

lemma runPump_trace:
  "snd (runPump i c) =
     (if moisture_level c < moisture_reference_level c \<and> pump_attempts c < max_pump_attempts c
      then [RunPump i (pump_dec c) (pump_duration c)] else [])"
  by (simp add: runPump_def)

lemma unat_inc_below:
  fixes a b :: u8
  assumes "a < b"
  shows "unat (a + 1) = unat a + 1" and "a + 1 \<le> b"
proof -
  have "unat a < unat b" using assms by (simp add: word_less_nat_alt)
  moreover have "unat b < 256" using unsigned_less[of b, where ?'a = nat] by simp
  ultimately have "unat a + unat (1 :: u8) < 2 ^ LENGTH(8)" by simp
  then show "unat (a + 1) = unat a + 1" by (simp add: unat_add_lem[THEN iffD1])
  show "a + 1 \<le> b" using assms by (rule inc_le)
qed

lemma loop_length: "length (fst (loop adc cs)) = length cs"
  by (simp add: loop_def Let_def split: prod.splits)
     (metis fst_conv runPumps_length updateState_length)

section \<open>The sampling loop\<close>

lemma sample_loop_exact:
  "\<forall>k<n. unat (rd k p) \<le> 1023 \<and> unat (rd k MOIST_REF) \<le> 1023 \<Longrightarrow> n \<le> 64 \<Longrightarrow> j \<le> n \<Longrightarrow>
   unat m = (\<Sum>k<j. unat (rd k p)) \<Longrightarrow> unat mr = (\<Sum>k<j. unat (rd k MOIST_REF)) \<Longrightarrow>
   unat (fst (sample_loop rd p n j (m, mr))) = (\<Sum>k<n. unat (rd k p))
   \<and> unat (snd (sample_loop rd p n j (m, mr))) = (\<Sum>k<n. unat (rd k MOIST_REF))"
proof (induction rd p n j "(m, mr)" arbitrary: m mr rule: sample_loop.induct)
  case (1 rd p n j m mr)
  show ?case
  proof (cases "j < n")
    case True
    have bound: "(\<Sum>k<j. unat (rd k q)) \<le> 1023 * j" if "\<forall>k<n. unat (rd k q) \<le> 1023" for q
    proof -
      have "(\<Sum>k<j. unat (rd k q)) \<le> (\<Sum>k<j. 1023)"
        using that True by (intro sum_mono) simp
      then show ?thesis by simp
    qed
    have j63: "j \<le> 63" using True "1.prems"(2) by simp
    have s1: "unat m + unat (rd j p) < 2 ^ LENGTH(16)"
    proof -
      have "unat m \<le> 1023 * j" using bound[of p] "1.prems"(1,4) by simp
      moreover have "unat (rd j p) \<le> 1023" using "1.prems"(1) True by simp
      ultimately have "unat m + unat (rd j p) \<le> 1023 * 64" using j63 by simp
      then show ?thesis by simp
    qed
    have s2: "unat mr + unat (rd j MOIST_REF) < 2 ^ LENGTH(16)"
    proof -
      have "unat mr \<le> 1023 * j" using bound[of MOIST_REF] "1.prems"(1,5) by simp
      moreover have "unat (rd j MOIST_REF) \<le> 1023" using "1.prems"(1) True by simp
      ultimately have "unat mr + unat (rd j MOIST_REF) \<le> 1023 * 64" using j63 by simp
      then show ?thesis by simp
    qed
    have m': "unat (m + rd j p) = (\<Sum>k<Suc j. unat (rd k p))"
      using s1 "1.prems"(4) by (simp add: unat_add_lem[THEN iffD1])
    have mr': "unat (mr + rd j MOIST_REF) = (\<Sum>k<Suc j. unat (rd k MOIST_REF))"
      using s2 "1.prems"(5) by (simp add: unat_add_lem[THEN iffD1])
    have step: "sample_loop rd p n j (m, mr) =
        sample_loop rd p n (Suc j) (m + rd j p, mr + rd j MOIST_REF)"
      using True by (simp add: sample_loop.simps[of rd p n j m mr])
    have sj: "Suc j \<le> n" using True by simp
    show ?thesis
      unfolding step by (rule "1.hyps"[OF True "1.prems"(1,2) sj m' mr'])
  next
    case False
    then have "j = n" using "1.prems"(3) by simp
    then show ?thesis using "1.prems"(4,5) by (simp add: sample_loop.simps[of rd p n n m mr])
  qed
qed

lemma readChannel_exact:
  assumes "\<forall>j<NUMBER_OF_MEASUREMENT_SAMPLES.
             unat (rd j (sensor_analog_pin c)) \<le> 1023 \<and> unat (rd j MOIST_REF) \<le> 1023"
  shows "unat (fst (readChannel rd c)) =
           (\<Sum>j<NUMBER_OF_MEASUREMENT_SAMPLES. unat (rd j (sensor_analog_pin c))) div 4"
    and "unat (snd (readChannel rd c)) =
           (\<Sum>j<NUMBER_OF_MEASUREMENT_SAMPLES. unat (rd j MOIST_REF)) div 4"
proof -
  have n: "NUMBER_OF_MEASUREMENT_SAMPLES \<le> 64" by (simp add: NUMBER_OF_MEASUREMENT_SAMPLES_def)
  obtain a b where e:
    "sample_loop rd (sensor_analog_pin c) NUMBER_OF_MEASUREMENT_SAMPLES 0 (0, 0) = (a, b)"
    by (cases "sample_loop rd (sensor_analog_pin c) NUMBER_OF_MEASUREMENT_SAMPLES 0 (0, 0)")
  have L: "unat a = (\<Sum>j<NUMBER_OF_MEASUREMENT_SAMPLES. unat (rd j (sensor_analog_pin c)))"
      "unat b = (\<Sum>j<NUMBER_OF_MEASUREMENT_SAMPLES. unat (rd j MOIST_REF))"
    using sample_loop_exact[where m = 0 and mr = 0 and j = 0, OF assms n] by (simp_all add: e)
  have four: "unat (word_of_nat NUMBER_OF_MEASUREMENT_SAMPLES :: u16) = 4"
    by (simp add: NUMBER_OF_MEASUREMENT_SAMPLES_def)
  show "unat (fst (readChannel rd c)) =
           (\<Sum>j<NUMBER_OF_MEASUREMENT_SAMPLES. unat (rd j (sensor_analog_pin c))) div 4"
    by (simp add: readChannel_def e unat_div four L)
  show "unat (snd (readChannel rd c)) =
           (\<Sum>j<NUMBER_OF_MEASUREMENT_SAMPLES. unat (rd j MOIST_REF)) div 4"
    by (simp add: readChannel_def e unat_div four L)
qed

lemma readChannel_10bit:
  assumes "\<forall>j p. rd j p \<le> 1023"
  shows "unat (fst (readChannel rd c)) \<le> 1023" and "unat (snd (readChannel rd c)) \<le> 1023"
proof -
  have b: "\<forall>j<NUMBER_OF_MEASUREMENT_SAMPLES.
             unat (rd j (sensor_analog_pin c)) \<le> 1023 \<and> unat (rd j MOIST_REF) \<le> 1023"
    using assms by (simp add: word_le_nat_alt)
  have s: "(\<Sum>j<NUMBER_OF_MEASUREMENT_SAMPLES. unat (rd j q)) \<le> 1023 * 4" for q
  proof -
    have "(\<Sum>j<NUMBER_OF_MEASUREMENT_SAMPLES. unat (rd j q)) \<le> (\<Sum>j<NUMBER_OF_MEASUREMENT_SAMPLES. 1023)"
      using assms by (intro sum_mono) (simp add: word_le_nat_alt)
    then show ?thesis by (simp add: NUMBER_OF_MEASUREMENT_SAMPLES_def)
  qed
  show "unat (fst (readChannel rd c)) \<le> 1023"
    using s[of "sensor_analog_pin c"] by (simp add: readChannel_exact(1)[OF b])
  show "unat (snd (readChannel rd c)) \<le> 1023"
    using s[of MOIST_REF] by (simp add: readChannel_exact(2)[OF b])
qed

section \<open>Invariants of the cycle\<close>

lemma ucast_u8_u16_le_99:
  assumes "(p :: u8) \<le> 99"
  shows "(ucast p :: u16) \<le> 99"
proof -
  have "unat p \<le> 99" using assms by (simp add: word_le_nat_alt)
  then show ?thesis by (simp add: word_le_nat_alt unat_ucast_u8_u16)
qed

lemma updateChannel_level_le_99:
  assumes "moisture_level c \<le> 99"
  shows "moisture_level (fst (updateChannel rd c u)) \<le> 99"
  using assms by (simp add: updateChannel_level ucast_u8_u16_le_99 convert_le_99)

lemma updateChannel_inv:
  assumes "pump_attempts c \<le> max_pump_attempts c" and "moisture_level c \<le> 99"
  shows "channel_inv (fst (updateChannel rd c u))"
  unfolding channel_inv_def
  using assms updateChannel_level_le_99[OF assms(2), of rd u]
  by (simp add: updateChannel_attempts updateChannel_config)

lemma runPump_inv:
  assumes "channel_inv c"
  shows "channel_inv (fst (runPump i c))"
  using assms unfolding channel_inv_def
  by (auto simp: runPump_level runPump_attempts inc_le)

lemma runPump_id:
  assumes "\<not> moisture_level c < moisture_reference_level c"
  shows "runPump i c = (c, [])"
  using assms by (simp add: runPump_def)

lemma loop_eq:
  "loop adc cs =
     (if snd (updateState adc cs)
      then (fst (runPumps (fst (updateState adc cs))),
            updateDisplay (fst (updateState adc cs)) @ snd (runPumps (fst (updateState adc cs))))
      else (fst (updateState adc cs), []))"
  by (simp add: loop_def Let_def case_prod_beta)

lemma loop_trace:
  "snd (loop adc cs) =
     (if snd (updateState adc cs)
      then updateDisplay (fst (updateState adc cs)) @ snd (runPumps (fst (updateState adc cs)))
      else [])"
  by (simp add: loop_eq)

lemma loop_nth:
  assumes "length cs = NUMBER_OF_CHANNELS" and "k < NUMBER_OF_CHANNELS"
  shows "fst (loop adc cs) ! k = fst (runPump k (fst (updateChannel (adc k) (cs ! k) False)))"
proof (cases "snd (updateState adc cs)")
  case True
  have l: "k < length (fst (updateState adc cs))" using assms by (simp add: updateState_length)
  have "fst (loop adc cs) = fst (runPumps (fst (updateState adc cs)))"
    using True by (simp add: loop_eq)
  then show ?thesis
    using assms l by (simp add: runPumps_nth updateState_nth)
next
  case False
  then have "\<not> snd (updateChannel (adc k) (cs ! k) False)"
    using assms(2) by (auto simp: updateState_flag)
  then have "\<not> moisture_level (fst (updateChannel (adc k) (cs ! k) False))
      < moisture_reference_level (fst (updateChannel (adc k) (cs ! k) False))"
    by (simp add: updateChannel_changed)
  then have r: "fst (runPump k (fst (updateChannel (adc k) (cs ! k) False)))
      = fst (updateChannel (adc k) (cs ! k) False)"
    by (simp add: runPump_id)
  have "fst (loop adc cs) = fst (updateState adc cs)"
    using False by (simp add: loop_eq)
  then show ?thesis using assms by (simp add: r updateState_nth)
qed

lemma channel_state_inv:
  "length channel_state = NUMBER_OF_CHANNELS"
  "k < NUMBER_OF_CHANNELS \<Longrightarrow> channel_inv (channel_state ! k)"
proof -
  show "length channel_state = NUMBER_OF_CHANNELS"
    by (simp add: channel_state_def NUMBER_OF_CHANNELS_def)
  assume "k < NUMBER_OF_CHANNELS"
  then have "k = 0 \<or> k = 1 \<or> k = 2 \<or> k = 3" by (auto simp: NUMBER_OF_CHANNELS_def)
  then show "channel_inv (channel_state ! k)"
    by (auto simp: channel_state_def channel_inv_def)
qed

lemma reachable_inv:
  assumes "reachable P cs"
  shows "length cs = NUMBER_OF_CHANNELS \<and> (\<forall>k<NUMBER_OF_CHANNELS. channel_inv (cs ! k))"
  using assms
proof (induction rule: reachable.induct)
  case reachable_init
  show ?case using channel_state_inv by blast
next
  case (reachable_loop cs adc)
  then have len: "length cs = NUMBER_OF_CHANNELS"
    and inv: "\<And>k. k < NUMBER_OF_CHANNELS \<Longrightarrow> channel_inv (cs ! k)" by simp_all
  have "channel_inv (fst (loop adc cs) ! k)" if "k < NUMBER_OF_CHANNELS" for k
  proof -
    have "channel_inv (fst (updateChannel (adc k) (cs ! k) False))"
      using inv[OF that] by (intro updateChannel_inv) (simp_all add: channel_inv_def)
    then show ?thesis by (simp add: loop_nth[OF len that] runPump_inv)
  qed
  then show ?case using len by (simp add: loop_length)
qed

section \<open>Steady inputs and prefixes of the sampling loop\<close>

lemma readChannel_steady:
  assumes "sensor_analog_pin c \<noteq> MOIST_REF" and "s \<le> 1023" and "r \<le> 1023"
  shows "readChannel (steady_adc s r i) c = (s, r)"
proof -
  have b: "\<forall>j<NUMBER_OF_MEASUREMENT_SAMPLES.
      unat (steady_adc s r i j (sensor_analog_pin c)) \<le> 1023 \<and> unat (steady_adc s r i j MOIST_REF) \<le> 1023"
    using assms by (simp add: steady_adc_def word_le_nat_alt)
  have "unat (fst (readChannel (steady_adc s r i) c)) = unat s"
    using assms(1) readChannel_exact(1)[OF b]
    by (simp add: steady_adc_def NUMBER_OF_MEASUREMENT_SAMPLES_def)
  moreover have "unat (snd (readChannel (steady_adc s r i) c)) = unat r"
    using readChannel_exact(2)[OF b]
    by (simp add: steady_adc_def NUMBER_OF_MEASUREMENT_SAMPLES_def)
  ultimately show ?thesis by (simp add: prod_eq_iff word_unat_eq_iff)
qed

lemma sample_loop_split:
  "j \<le> n \<Longrightarrow> n \<le> N \<Longrightarrow>
   sample_loop rd p N j (m, mr) = sample_loop rd p N n (sample_loop rd p n j (m, mr))"
proof (induction rd p n j "(m, mr)" arbitrary: m mr rule: sample_loop.induct)
  case (1 rd p n j m mr)
  show ?case
  proof (cases "j < n")
    case True
    then have "j < N" using "1.prems" by simp
    then have "sample_loop rd p N j (m, mr) =
        sample_loop rd p N (Suc j) (m + rd j p, mr + rd j MOIST_REF)"
      by (simp add: sample_loop.simps[of rd p N j m mr])
    moreover have "sample_loop rd p n j (m, mr) =
        sample_loop rd p n (Suc j) (m + rd j p, mr + rd j MOIST_REF)"
      using True by (simp add: sample_loop.simps[of rd p n j m mr])
    ultimately show ?thesis using "1.hyps"[OF True] True "1.prems" by simp
  next
    case False
    then have "j = n" using "1.prems" by simp
    then show ?thesis by (simp add: sample_loop.simps[of rd p n n m mr])
  qed
qed

section \<open>The attempt counter over one cycle\<close>

lemma convert_660: "convertMeasurementToPercent 660 = 0"
  by (rule convert_dry) simp

lemma convert_150: "convertMeasurementToPercent 150 = 99"
  by (rule convert_wet) simp

lemma loop_attempts_cases:
  assumes "length cs = NUMBER_OF_CHANNELS" and "i < NUMBER_OF_CHANNELS"
    and "pump_attempts (cs ! i) \<le> max_pump_attempts (cs ! i)"
  shows "moisture_level (fst (loop adc cs) ! i) = moisture_level (fst (updateState adc cs) ! i)"
    and "moisture_reference_level (fst (loop adc cs) ! i) =
           moisture_reference_level (fst (updateState adc cs) ! i)"
    and "pump_attempts (fst (loop adc cs) ! i) =
          (if moisture_reference_level (fst (updateState adc cs) ! i) \<le> moisture_level (fst (updateState adc cs) ! i)
           then 0
           else if pump_attempts (cs ! i) < max_pump_attempts (cs ! i)
           then pump_attempts (cs ! i) + 1 else pump_attempts (cs ! i))"
  using assms
  by (auto simp: loop_nth updateState_nth runPump_level runPump_attempts
      updateChannel_attempts[of "adc i" "cs ! i" False] updateChannel_config)

section \<open>The hysteresis filter\<close>


section \<open>Cycles that change nothing\<close>

lemma updateChannel_unchanged:
  assumes "almostEqual (ucast (moisture_level c)) (convertMeasurementToPercent (fst (readChannel rd c))) 2"
    and "almostEqual (ucast (moisture_reference_level c)) (ucast (snd (readChannel rd c) div 10)) 2"
    and "moisture_reference_level c \<le> moisture_level c"
    and "pump_attempts c = 0"
  shows "updateChannel rd c False = (c, False)"
  using assms
  by (simp add: updateChannel_def storeMoisture_def storeReference_def resetAttempts_def
      case_prod_beta)

lemma channel_state_fields:
  assumes "k < NUMBER_OF_CHANNELS"
  shows "pump_attempts (channel_state ! k) = 0" "max_pump_attempts (channel_state ! k) = 3"
    "moisture_level (channel_state ! k) = 99" "moisture_reference_level (channel_state ! k) = 25"
    "moisture_level_raw (channel_state ! k) = 0"
    "sensor_analog_pin (channel_state ! k) \<noteq> MOIST_REF"
proof -
  have "k = 0 \<or> k = 1 \<or> k = 2 \<or> k = 3" using assms by (auto simp: NUMBER_OF_CHANNELS_def)
  then show "pump_attempts (channel_state ! k) = 0" "max_pump_attempts (channel_state ! k) = 3"
    "moisture_level (channel_state ! k) = 99" "moisture_reference_level (channel_state ! k) = 25"
    "moisture_level_raw (channel_state ! k) = 0"
    "sensor_analog_pin (channel_state ! k) \<noteq> MOIST_REF"
    by (auto simp: channel_state_def MOIST_REF_def)
qed

section \<open>Traces and steady inputs\<close>

lemma runPumps_trace_RunPump:
  "RunPump i d t \<in> set (snd (runPumps cs)) \<longleftrightarrow>
     i < NUMBER_OF_CHANNELS \<and> moisture_level (cs ! i) < moisture_reference_level (cs ! i)
     \<and> pump_attempts (cs ! i) < max_pump_attempts (cs ! i)
     \<and> d = pump_dec (cs ! i) \<and> t = pump_duration (cs ! i)"
  by (auto simp: runPumps_trace runPump_trace split: if_splits)

lemma runPumps_trace_only_pumps:
  "e \<in> set (snd (runPumps cs)) \<Longrightarrow> \<exists>k d t. e = RunPump k d t"
  by (auto simp: runPumps_trace runPump_trace split: if_splits)

lemma updateState_flag_dry:
  assumes "i < NUMBER_OF_CHANNELS" and "length cs = NUMBER_OF_CHANNELS"
    and "moisture_level (fst (updateState adc cs) ! i) < moisture_reference_level (fst (updateState adc cs) ! i)"
  shows "snd (updateState adc cs)"
proof -
  have "snd (updateChannel (adc i) (cs ! i) False)"
    using assms by (simp add: updateChannel_changed updateState_nth)
  then show ?thesis using assms(1) by (auto simp: updateState_flag)
qed

lemma updateState_steady:
  assumes "length cs = NUMBER_OF_CHANNELS" and "i < NUMBER_OF_CHANNELS"
    and "sensor_analog_pin (cs ! i) \<noteq> MOIST_REF" and "s \<le> 1023" and "r \<le> 1023"
  shows "moisture_level (fst (updateState (steady_adc s r) cs) ! i) =
          (if \<not> almostEqual (ucast (moisture_level (cs ! i))) (convertMeasurementToPercent s) 2
           then ucast (convertMeasurementToPercent s) else moisture_level (cs ! i))"
    and "moisture_reference_level (fst (updateState (steady_adc s r) cs) ! i) =
          (if \<not> almostEqual (ucast (moisture_reference_level (cs ! i))) (ucast (r div 10)) 2
           then ucast (ucast (r div 10) :: u8) else moisture_reference_level (cs ! i))"
    and "moisture_level_raw (fst (updateState (steady_adc s r) cs) ! i) =
          (if \<not> almostEqual (ucast (moisture_level (cs ! i))) (convertMeasurementToPercent s) 2
           then s else moisture_level_raw (cs ! i))"
  using assms
  by (simp_all add: updateState_nth updateChannel_level updateChannel_reference
      updateChannel_raw readChannel_steady)

lemma loop_config:
  assumes "length cs = NUMBER_OF_CHANNELS" and "i < NUMBER_OF_CHANNELS"
  shows "max_pump_attempts (fst (loop adc cs) ! i) = max_pump_attempts (cs ! i)"
    and "sensor_analog_pin (fst (loop adc cs) ! i) = sensor_analog_pin (cs ! i)"
  using assms by (simp_all add: loop_nth runPump_def updateChannel_config)

text \<open>Three cycles on the initial array with a dry sensor (660) and the reference at 500.\<close>

lemma dry_run:
  assumes "i < NUMBER_OF_CHANNELS"
  defines "cs1 \<equiv> cycles [steady_adc 660 500] channel_state"
    and "cs2 \<equiv> cycles [steady_adc 660 500, steady_adc 660 500] channel_state"
    and "cs3 \<equiv> cycles [steady_adc 660 500, steady_adc 660 500, steady_adc 660 500] channel_state"
  shows "length cs1 = NUMBER_OF_CHANNELS" "moisture_level (cs1 ! i) = 0"
    "moisture_reference_level (cs1 ! i) = 50" "pump_attempts (cs1 ! i) = 1"
    "max_pump_attempts (cs1 ! i) = 3" "sensor_analog_pin (cs1 ! i) \<noteq> MOIST_REF"
    "length cs2 = NUMBER_OF_CHANNELS" "moisture_level (cs2 ! i) = 0"
    "moisture_reference_level (cs2 ! i) = 50" "pump_attempts (cs2 ! i) = 2"
    "max_pump_attempts (cs2 ! i) = 3" "sensor_analog_pin (cs2 ! i) \<noteq> MOIST_REF"
    "length cs3 = NUMBER_OF_CHANNELS" "moisture_level (cs3 ! i) = 0"
    "moisture_reference_level (cs3 ! i) = 50" "pump_attempts (cs3 ! i) = 3"
    "max_pump_attempts (cs3 ! i) = 3" "sensor_analog_pin (cs3 ! i) \<noteq> MOIST_REF"
proof -
  note c0 = channel_state_fields[OF assms(1)] channel_state_inv(1)
  have e1: "cs1 = fst (loop (steady_adc 660 500) channel_state)" by (simp add: cs1_def)
  show l1: "length cs1 = NUMBER_OF_CHANNELS" by (simp add: e1 loop_length c0)
  show v1: "moisture_level (cs1 ! i) = 0" "moisture_reference_level (cs1 ! i) = 50"
    using assms(1)
    by (simp_all add: e1 loop_attempts_cases c0 updateState_steady convert_660 almostEqual_def)
  show a1: "pump_attempts (cs1 ! i) = 1"
    using assms(1)
    by (simp add: e1 loop_attempts_cases c0 updateState_steady convert_660 almostEqual_def)
  show k1: "max_pump_attempts (cs1 ! i) = 3" "sensor_analog_pin (cs1 ! i) \<noteq> MOIST_REF"
    using assms(1) by (simp_all add: e1 loop_config c0)
  have e2: "cs2 = fst (loop (steady_adc 660 500) cs1)" by (simp add: cs1_def cs2_def)
  show l2: "length cs2 = NUMBER_OF_CHANNELS" by (simp add: e2 loop_length l1)
  show v2: "moisture_level (cs2 ! i) = 0" "moisture_reference_level (cs2 ! i) = 50"
    using assms(1)
    by (simp_all add: e2 loop_attempts_cases l1 v1 a1 k1 updateState_steady convert_660 almostEqual_def)
  show a2: "pump_attempts (cs2 ! i) = 2"
    using assms(1)
    by (simp add: e2 loop_attempts_cases l1 v1 a1 k1 updateState_steady convert_660 almostEqual_def)
  show k2: "max_pump_attempts (cs2 ! i) = 3" "sensor_analog_pin (cs2 ! i) \<noteq> MOIST_REF"
    using assms(1) by (simp_all add: e2 loop_config l1 k1)
  have e3: "cs3 = fst (loop (steady_adc 660 500) cs2)" by (simp add: cs2_def cs3_def)
  show l3: "length cs3 = NUMBER_OF_CHANNELS" by (simp add: e3 loop_length l2)
  show v3: "moisture_level (cs3 ! i) = 0" "moisture_reference_level (cs3 ! i) = 50"
    using assms(1)
    by (simp_all add: e3 loop_attempts_cases l2 v2 a2 k2 updateState_steady convert_660 almostEqual_def)
  show a3: "pump_attempts (cs3 ! i) = 3"
    using assms(1)
    by (simp add: e3 loop_attempts_cases l2 v2 a2 k2 updateState_steady convert_660 almostEqual_def)
  show k3: "max_pump_attempts (cs3 ! i) = 3" "sensor_analog_pin (cs3 ! i) \<noteq> MOIST_REF"
    using assms(1) by (simp_all add: e3 loop_config l2 k2)
qed

lemma loop_trace_RunPump:
  assumes "length cs = NUMBER_OF_CHANNELS" and "i < NUMBER_OF_CHANNELS"
  shows "(\<exists>d t. RunPump i d t \<in> set (snd (loop adc cs))) \<longleftrightarrow>
     moisture_level (fst (updateState adc cs) ! i) < moisture_reference_level (fst (updateState adc cs) ! i)
     \<and> pump_attempts (fst (updateState adc cs) ! i) < max_pump_attempts (fst (updateState adc cs) ! i)"
proof (cases "snd (updateState adc cs)")
  case True
  then show ?thesis using assms(2)
    by (simp add: loop_trace updateDisplay_def runPumps_trace_RunPump)
next
  case False
  have "\<not> moisture_level (fst (updateState adc cs) ! i) < moisture_reference_level (fst (updateState adc cs) ! i)"
    using False updateState_flag_dry[OF assms(2,1)] by blast
  then show ?thesis using False by (simp add: loop_trace)
qed

section \<open>Dry, wet and exhausted cycles\<close>

lemma dry_cycle_step:
  assumes "length cs = NUMBER_OF_CHANNELS" and "i < NUMBER_OF_CHANNELS"
    and "pump_attempts (cs ! i) \<le> max_pump_attempts (cs ! i)"
    and "moisture_level (fst (loop adc cs) ! i) < moisture_reference_level (fst (loop adc cs) ! i)"
  shows "pump_attempts (fst (loop adc cs) ! i) =
           (if pump_attempts (cs ! i) < max_pump_attempts (cs ! i)
            then pump_attempts (cs ! i) + 1 else pump_attempts (cs ! i))"
proof -
  note L = loop_attempts_cases[OF assms(1-3), of adc]
  have "\<not> moisture_reference_level (fst (updateState adc cs) ! i)
      \<le> moisture_level (fst (updateState adc cs) ! i)"
    using assms(4) by (simp add: L(1,2) not_le)
  then show ?thesis by (simp add: L(3))
qed

lemma wet_cycle_step:
  assumes "length cs = NUMBER_OF_CHANNELS" and "i < NUMBER_OF_CHANNELS"
    and "moisture_reference_level (fst (updateState adc cs) ! i)
           \<le> moisture_level (fst (updateState adc cs) ! i)"
  shows "pump_attempts (fst (loop adc cs) ! i) = 0"
  using assms
  by (simp add: loop_nth updateState_nth runPump_attempts runPump_level
      updateChannel_attempts[of "adc i" "cs ! i" False] not_less[symmetric])

lemma exhausted_cycle_step:
  assumes "length cs = NUMBER_OF_CHANNELS" and "i < NUMBER_OF_CHANNELS"
    and "moisture_level (fst (updateState adc cs) ! i)
           < moisture_reference_level (fst (updateState adc cs) ! i)"
    and "pump_attempts (fst (updateState adc cs) ! i) = max_pump_attempts (fst (updateState adc cs) ! i)"
  shows "\<not> (\<exists>d t. RunPump i d t \<in> set (snd (loop adc cs)))"
    and "pump_attempts (fst (loop adc cs) ! i) = max_pump_attempts (fst (loop adc cs) ! i)"
proof -
  show "\<not> (\<exists>d t. RunPump i d t \<in> set (snd (loop adc cs)))"
    using assms(4) by (simp add: loop_trace_RunPump[OF assms(1,2)])
  have "fst (loop adc cs) ! i = fst (runPump i (fst (updateState adc cs) ! i))"
    using assms(1,2) by (simp add: loop_nth updateState_nth)
  then show "pump_attempts (fst (loop adc cs) ! i) = max_pump_attempts (fst (loop adc cs) ! i)"
    using assms(4) by (simp add: runPump_attempts runPump_level)
qed

section \<open>A reference above every level\<close>

lemma reachable_mono:
  assumes "reachable P cs" and "\<And>adc. P adc \<Longrightarrow> Q adc"
  shows "reachable Q cs"
  using assms(1)
proof (induction rule: reachable.induct)
  case reachable_init
  show ?case by (rule reachable.reachable_init)
next
  case (reachable_loop cs adc)
  then show ?case using assms(2) by (intro reachable.reachable_loop) simp_all
qed

lemma loop_inv:
  assumes "length cs = NUMBER_OF_CHANNELS" and "i < NUMBER_OF_CHANNELS" and "channel_inv (cs ! i)"
  shows "channel_inv (fst (loop adc cs) ! i)"
proof -
  have "channel_inv (fst (updateChannel (adc i) (cs ! i) False))"
    using assms(3) by (intro updateChannel_inv) (simp_all add: channel_inv_def)
  then show ?thesis by (simp add: loop_nth[OF assms(1,2)] runPump_inv)
qed

lemma cycles_snoc: "cycles (adcs @ [a]) cs = fst (loop a (cycles adcs cs))"
  by (induction adcs arbitrary: cs) simp_all

lemma cycles_length: "length (cycles adcs cs) = length cs"
  by (induction adcs arbitrary: cs) (simp_all add: loop_length)

lemma cycles_inv:
  assumes "length cs = NUMBER_OF_CHANNELS" and "i < NUMBER_OF_CHANNELS" and "channel_inv (cs ! i)"
  shows "channel_inv (cycles adcs cs ! i)"
    and "max_pump_attempts (cycles adcs cs ! i) = max_pump_attempts (cs ! i)"
    and "sensor_analog_pin (cycles adcs cs ! i) = sensor_analog_pin (cs ! i)"
  using assms
  by (induction adcs arbitrary: cs) (simp_all add: loop_inv loop_length loop_config)

lemma u16_le_99_less:
  fixes l r :: u16
  assumes "l \<le> 99" and "99 < r"
  shows "l < r"
  using assms by (rule le_less_trans)

lemma reference_10bit:
  assumes "\<forall>j p. rd j p \<le> 1023"
  shows "(ucast (ucast (snd (readChannel rd c) div 10) :: u8) :: u16) \<le> 102"
proof -
  have "unat (snd (readChannel rd c)) \<le> 1023" using assms by (rule readChannel_10bit)
  then have d: "unat (snd (readChannel rd c) div 10) \<le> 102" by (simp add: unat_div)
  then have "unat (ucast (snd (readChannel rd c) div 10) :: u8) \<le> 102"
    by (simp add: unsigned_ucast_eq take_bit_nat_eq_self)
  then show ?thesis by (simp add: word_le_nat_alt unat_ucast_u8_u16)
qed

lemma updateChannel_reference_le_102:
  assumes "\<forall>j p. rd j p \<le> 1023" and "moisture_reference_level c \<le> 102"
  shows "moisture_reference_level (fst (updateChannel rd c u)) \<le> 102"
  using assms reference_10bit[OF assms(1), of c] by (simp add: updateChannel_reference)

lemma reachable_reference_le_102:
  assumes "reachable adc_10bit cs" and "i < NUMBER_OF_CHANNELS"
  shows "moisture_reference_level (cs ! i) \<le> 102"
  using assms
proof (induction rule: reachable.induct)
  case reachable_init
  then show ?case by (simp add: channel_state_fields)
next
  case (reachable_loop cs adc)
  have len: "length cs = NUMBER_OF_CHANNELS"
    using reachable_inv[OF reachable_loop.hyps(1)] by simp
  have rd: "\<forall>j p. adc i j p \<le> 1023" using reachable_loop.hyps(2) by (simp add: adc_10bit_def)
  have "moisture_reference_level (fst (loop adc cs) ! i) =
      moisture_reference_level (fst (updateChannel (adc i) (cs ! i) False))"
    using len reachable_loop.prems by (simp add: loop_nth runPump_level)
  then show ?case
    using updateChannel_reference_le_102[OF rd] reachable_loop.IH[OF reachable_loop.prems]
    by simp
qed

lemma stuck_dry_cycles:
  assumes "length cs = NUMBER_OF_CHANNELS" and "i < NUMBER_OF_CHANNELS" and "channel_inv (cs ! i)"
    and "\<forall>k<length adcs. 99 < moisture_reference_level (cycles (take (Suc k) adcs) cs ! i)"
  shows "unat (pump_attempts (cycles adcs cs ! i)) =
           min (unat (pump_attempts (cs ! i)) + length adcs) (unat (max_pump_attempts (cs ! i)))"
  using assms(4)
proof (induction adcs rule: rev_induct)
  case Nil
  have "pump_attempts (cs ! i) \<le> max_pump_attempts (cs ! i)"
    using assms(3) by (simp add: channel_inv_def)
  then show ?case by (simp add: word_le_nat_alt)
next
  case (snoc a adcs)
  define cs' where "cs' = cycles adcs cs"
  have pre: "\<forall>k<length adcs. 99 < moisture_reference_level (cycles (take (Suc k) adcs) cs ! i)"
  proof (intro allI impI)
    fix k assume k: "k < length adcs"
    then have "take (Suc k) (adcs @ [a]) = take (Suc k) adcs" by simp
    then show "99 < moisture_reference_level (cycles (take (Suc k) adcs) cs ! i)"
      using snoc.prems k by (metis length_append_singleton less_Suc_eq)
  qed
  note IH = snoc.IH[OF pre, folded cs'_def]
  have len: "length cs' = NUMBER_OF_CHANNELS" by (simp add: cs'_def cycles_length assms(1))
  have inv: "channel_inv (cs' ! i)" and mx: "max_pump_attempts (cs' ! i) = max_pump_attempts (cs ! i)"
    unfolding cs'_def using cycles_inv[OF assms(1-3)] by simp_all
  have le: "pump_attempts (cs' ! i) \<le> max_pump_attempts (cs' ! i)"
    using inv by (simp add: channel_inv_def)
  have nxt: "cycles (adcs @ [a]) cs = fst (loop a cs')" by (simp add: cycles_snoc cs'_def)
  have "length adcs < length (adcs @ [a])" by simp
  then have "99 < moisture_reference_level (cycles (take (Suc (length adcs)) (adcs @ [a])) cs ! i)"
    using snoc.prems by blast
  then have hi: "99 < moisture_reference_level (fst (loop a cs') ! i)" by (simp add: nxt)
  have "moisture_level (fst (loop a cs') ! i) \<le> 99"
    using loop_inv[OF len assms(2) inv, of a] by (simp add: channel_inv_def)
  then have dry: "moisture_level (fst (loop a cs') ! i) < moisture_reference_level (fst (loop a cs') ! i)"
    using hi by (rule u16_le_99_less)
  note S = dry_cycle_step[OF len assms(2) le dry]
  show ?case
  proof (cases "pump_attempts (cs' ! i) < max_pump_attempts (cs' ! i)")
    case True
    then have "unat (pump_attempts (fst (loop a cs') ! i)) = unat (pump_attempts (cs' ! i)) + 1"
      using S unat_inc_below(1)[OF True] by simp
    moreover have "unat (pump_attempts (cs' ! i)) < unat (max_pump_attempts (cs ! i))"
      using True by (simp add: word_less_nat_alt mx)
    ultimately show ?thesis using IH by (simp add: nxt)
  next
    case False
    then have "pump_attempts (fst (loop a cs') ! i) = pump_attempts (cs' ! i)" using S by simp
    moreover have "unat (pump_attempts (cs' ! i)) = unat (max_pump_attempts (cs ! i))"
      using False le by (simp add: word_less_nat_alt word_le_nat_alt mx)
    ultimately show ?thesis using IH by (simp add: nxt)
  qed
qed

text \<open>Cycles on the initial array with the reference potentiometer at its upper end.\<close>

lemma hot_run:
  assumes "i < NUMBER_OF_CHANNELS"
  shows "moisture_reference_level
           (cycles (replicate (Suc n) (steady_adc 150 1023)) channel_state ! i) = 102"
proof (induction n)
  case 0
  note c0 = channel_state_fields[OF assms] channel_state_inv(1)
  show ?case
    using assms
    by (simp add: loop_attempts_cases c0 updateState_steady almostEqual_def)
next
  case (Suc n)
  define cs' where "cs' = cycles (replicate (Suc n) (steady_adc 150 1023)) channel_state"
  have nxt: "cycles (replicate (Suc (Suc n)) (steady_adc 150 1023)) channel_state =
      fst (loop (steady_adc 150 1023) cs')"
  proof -
    have "replicate (Suc (Suc n)) (steady_adc 150 1023) =
        replicate (Suc n) (steady_adc 150 1023) @ [steady_adc 150 1023]"
      by (metis replicate_append_same replicate_Suc)
    then show ?thesis unfolding cs'_def by (simp only: cycles_snoc)
  qed
  have len: "length cs' = NUMBER_OF_CHANNELS"
    by (simp only: cs'_def cycles_length channel_state_inv(1))
  note I = cycles_inv[OF channel_state_inv(1) assms channel_state_inv(2)[OF assms],
      of "replicate (Suc n) (steady_adc 150 1023)", folded cs'_def]
  have le: "pump_attempts (cs' ! i) \<le> max_pump_attempts (cs' ! i)"
    using I(1) by (simp add: channel_inv_def)
  have pin: "sensor_analog_pin (cs' ! i) \<noteq> MOIST_REF"
    using I(3) channel_state_fields(6)[OF assms] by simp
  have rf: "moisture_reference_level (cs' ! i) = 102" using Suc.IH by (simp add: cs'_def)
  show ?case
    unfolding nxt using assms
    by (simp add: loop_attempts_cases(2)[OF len assms le] updateState_steady(2)[OF len assms pin]
        rf almostEqual_def)
qed


section \<open>Claims\<close>

text \<open>
  C1. In every channel array the firmware can hold at the start of a cycle, and in the
  arrays that follow it after \<open>updateState\<close> and after the whole cycle, \<open>pump_attempts\<close>
  is at most \<open>max_pump_attempts\<close>. \<open>updateState\<close> either leaves \<open>pump_attempts\<close> as it is or
  sets it to 0, and then the level is at or above the reference; over a whole cycle the
  count stays, grows by one, or is reset to 0 with the level at or above the reference.
\<close>

theorem pump_attempts_bounded_reset_only:
  assumes "reachable any_adc cs" and "i < NUMBER_OF_CHANNELS"
  shows "pump_attempts (cs ! i) \<le> max_pump_attempts (cs ! i)
    \<and> pump_attempts (fst (updateState adc cs) ! i) \<le> max_pump_attempts (fst (updateState adc cs) ! i)
    \<and> pump_attempts (fst (loop adc cs) ! i) \<le> max_pump_attempts (fst (loop adc cs) ! i)
    \<and> (pump_attempts (fst (updateState adc cs) ! i) = pump_attempts (cs ! i)
        \<or> pump_attempts (fst (updateState adc cs) ! i) = 0
          \<and> moisture_reference_level (fst (updateState adc cs) ! i)
              \<le> moisture_level (fst (updateState adc cs) ! i))
    \<and> (unat (pump_attempts (fst (loop adc cs) ! i)) = unat (pump_attempts (cs ! i))
        \<or> unat (pump_attempts (fst (loop adc cs) ! i)) = unat (pump_attempts (cs ! i)) + 1
        \<or> pump_attempts (fst (loop adc cs) ! i) = 0
          \<and> moisture_reference_level (fst (loop adc cs) ! i) \<le> moisture_level (fst (loop adc cs) ! i))"
proof -
  have len: "length cs = NUMBER_OF_CHANNELS" and inv: "channel_inv (cs ! i)"
    using reachable_inv[OF assms(1)] assms(2) by simp_all
  have le: "pump_attempts (cs ! i) \<le> max_pump_attempts (cs ! i)"
    and lv: "moisture_level (cs ! i) \<le> 99"
    using inv by (simp_all add: channel_inv_def)
  have any: "any_adc adc" by (simp add: any_adc_def)
  have "channel_inv (fst (loop adc cs) ! i)"
    using reachable_inv[OF reachable_loop[OF assms(1) any]] assms(2) by simp
  then have after: "pump_attempts (fst (loop adc cs) ! i) \<le> max_pump_attempts (fst (loop adc cs) ! i)"
    by (simp add: channel_inv_def)
  have us: "fst (updateState adc cs) ! i = fst (updateChannel (adc i) (cs ! i) False)"
    using len assms(2) by (simp add: updateState_nth)
  have mid: "pump_attempts (fst (updateState adc cs) ! i) \<le> max_pump_attempts (fst (updateState adc cs) ! i)"
    using updateChannel_inv[OF le lv, of "adc i" False] by (simp add: us channel_inv_def)
  have upd: "pump_attempts (fst (updateState adc cs) ! i) = pump_attempts (cs ! i)
        \<or> pump_attempts (fst (updateState adc cs) ! i) = 0
          \<and> moisture_reference_level (fst (updateState adc cs) ! i)
              \<le> moisture_level (fst (updateState adc cs) ! i)"
    unfolding us using updateChannel_attempts[of "adc i" "cs ! i" False] by auto
  note L = loop_attempts_cases[OF len assms(2) le, of adc]
  have cyc: "unat (pump_attempts (fst (loop adc cs) ! i)) = unat (pump_attempts (cs ! i))
        \<or> unat (pump_attempts (fst (loop adc cs) ! i)) = unat (pump_attempts (cs ! i)) + 1
        \<or> pump_attempts (fst (loop adc cs) ! i) = 0
          \<and> moisture_reference_level (fst (loop adc cs) ! i) \<le> moisture_level (fst (loop adc cs) ! i)"
    unfolding L using unat_inc_below(1)[of "pump_attempts (cs ! i)" "max_pump_attempts (cs ! i)"]
    by auto
  show ?thesis using le mid after upd cyc by blast
qed

theorem pump_attempts_bounded_reset_only_witness:
  "reachable any_adc channel_state
   \<and> pump_attempts (fst (loop (steady_adc 660 500) channel_state) ! 0)
       \<le> max_pump_attempts (fst (loop (steady_adc 660 500) channel_state) ! 0)
   \<and> pump_attempts (channel_state ! 0) = 0
   \<and> pump_attempts (fst (loop (steady_adc 660 500) channel_state) ! 0) = 1"
proof -
  have r: "reachable any_adc channel_state" by (rule reachable_init)
  have i: "(0::nat) < NUMBER_OF_CHANNELS" by (simp add: NUMBER_OF_CHANNELS_def)
  note T = pump_attempts_bounded_reset_only[OF r i, of "steady_adc 660 500"]
  have c0: "pump_attempts (channel_state ! 0) = 0" "max_pump_attempts (channel_state ! 0) = 3"
    "moisture_level (channel_state ! 0) = 99" "moisture_reference_level (channel_state ! 0) = 25"
    "sensor_analog_pin (channel_state ! 0) = A0"
    by (simp_all add: channel_state_def)
  have rd: "readChannel (steady_adc 660 500 0) (channel_state ! 0) = (660, 500)"
    by (rule readChannel_steady) (simp_all add: c0 MOIST_REF_def)
  have us: "fst (updateState (steady_adc 660 500) channel_state) ! 0 =
      fst (updateChannel (steady_adc 660 500 0) (channel_state ! 0) False)"
    using i by (simp add: updateState_nth channel_state_inv(1))
  have lv: "moisture_level (fst (updateState (steady_adc 660 500) channel_state) ! 0) = 0"
    by (simp add: us updateChannel_level rd convert_660 almostEqual_def c0)
  have rf: "moisture_reference_level (fst (updateState (steady_adc 660 500) channel_state) ! 0) = 50"
    by (simp add: us updateChannel_reference rd almostEqual_def c0)
  have "pump_attempts (fst (loop (steady_adc 660 500) channel_state) ! 0) = 1"
    using i by (simp add: loop_attempts_cases(3) channel_state_inv(1) lv rf c0)
  moreover have "pump_attempts (channel_state ! 0) = 0" by (simp add: c0)
  ultimately show ?thesis using T r by blast
qed

text \<open>
  C2. A channel with \<open>max_pump_attempts = 3\<close> and \<open>pump_attempts = 0\<close> whose level is below
  its reference in each of three consecutive cycles has \<open>pump_attempts\<close> 1, 2 and 3 after
  them; it is DRY after the first two and EXHAUSTED after the third. In any cycle in which
  \<open>runPumps\<close> finds a channel below its reference with \<open>pump_attempts\<close> equal to the
  maximum, no pump run of that channel is in the trace and the count stays at the maximum.
  In any cycle in which the sampled level is at or above the reference, the count is 0
  after the cycle, whatever it was.
\<close>

theorem three_dry_cycles_exhaust:
  assumes "length cs0 = NUMBER_OF_CHANNELS" and "i < NUMBER_OF_CHANNELS"
    and "max_pump_attempts (cs0 ! i) = 3" and "pump_attempts (cs0 ! i) = 0"
    and "moisture_level (cycles [a1] cs0 ! i) < moisture_reference_level (cycles [a1] cs0 ! i)"
    and "moisture_level (cycles [a1, a2] cs0 ! i)
           < moisture_reference_level (cycles [a1, a2] cs0 ! i)"
    and "moisture_level (cycles [a1, a2, a3] cs0 ! i)
           < moisture_reference_level (cycles [a1, a2, a3] cs0 ! i)"
  shows "pump_attempts (cycles [a1] cs0 ! i) = 1
    \<and> pump_attempts (cycles [a1, a2] cs0 ! i) = 2
    \<and> pump_attempts (cycles [a1, a2, a3] cs0 ! i) = 3
    \<and> retry_state_of (cycles [a1] cs0 ! i) = DRY
    \<and> retry_state_of (cycles [a1, a2] cs0 ! i) = DRY
    \<and> retry_state_of (cycles [a1, a2, a3] cs0 ! i) = EXHAUSTED
    \<and> (\<forall>cs adc. length cs = NUMBER_OF_CHANNELS
          \<and> moisture_level (fst (updateState adc cs) ! i)
              < moisture_reference_level (fst (updateState adc cs) ! i)
          \<and> pump_attempts (fst (updateState adc cs) ! i)
              = max_pump_attempts (fst (updateState adc cs) ! i)
          \<longrightarrow> \<not> (\<exists>d t. RunPump i d t \<in> set (snd (loop adc cs)))
              \<and> pump_attempts (fst (loop adc cs) ! i) = max_pump_attempts (fst (loop adc cs) ! i))
    \<and> (\<forall>cs adc. length cs = NUMBER_OF_CHANNELS
          \<and> moisture_reference_level (fst (updateState adc cs) ! i)
              \<le> moisture_level (fst (updateState adc cs) ! i)
          \<longrightarrow> pump_attempts (fst (loop adc cs) ! i) = 0)"
proof -
  define cs1 cs2 cs3 where "cs1 = fst (loop a1 cs0)" and "cs2 = fst (loop a2 cs1)"
    and "cs3 = fst (loop a3 cs2)"
  have c: "cycles [a1] cs0 = cs1" "cycles [a1, a2] cs0 = cs2" "cycles [a1, a2, a3] cs0 = cs3"
    by (simp_all add: cs1_def cs2_def cs3_def)
  have l: "length cs1 = NUMBER_OF_CHANNELS" "length cs2 = NUMBER_OF_CHANNELS"
    by (simp_all add: cs1_def cs2_def loop_length assms(1))
  have m: "max_pump_attempts (cs1 ! i) = 3" "max_pump_attempts (cs2 ! i) = 3"
    "max_pump_attempts (cs3 ! i) = 3"
    using assms(1,2,3) l by (simp_all add: cs1_def cs2_def cs3_def loop_config loop_length)
  have d1: "moisture_level (cs1 ! i) < moisture_reference_level (cs1 ! i)"
    and d2: "moisture_level (cs2 ! i) < moisture_reference_level (cs2 ! i)"
    and d3: "moisture_level (cs3 ! i) < moisture_reference_level (cs3 ! i)"
    using assms(5-7) by (simp_all only: c)
  have a1: "pump_attempts (cs1 ! i) = 1"
    using dry_cycle_step[OF assms(1,2), of a1] d1 assms(3,4) by (simp add: cs1_def)
  have a2: "pump_attempts (cs2 ! i) = 2"
    using dry_cycle_step[OF l(1) assms(2), of a2] d2 a1 m by (simp add: cs2_def)
  have a3: "pump_attempts (cs3 ! i) = 3"
    using dry_cycle_step[OF l(2) assms(2), of a3] d3 a2 m by (simp add: cs3_def)
  have "retry_state_of (cs1 ! i) = DRY" "retry_state_of (cs2 ! i) = DRY"
    "retry_state_of (cs3 ! i) = EXHAUSTED"
    using d1 d2 d3 by (simp_all add: retry_state_of_def a1 a2 a3 m not_le)
  then show ?thesis
    unfolding c using a1 a2 a3 exhausted_cycle_step[OF _ assms(2)] wet_cycle_step[OF _ assms(2)]
    by blast
qed

theorem three_dry_cycles_exhaust_witness:
  "pump_attempts (cycles [steady_adc 660 500] channel_state ! 0) = 1
   \<and> pump_attempts (cycles [steady_adc 660 500, steady_adc 660 500] channel_state ! 0) = 2
   \<and> pump_attempts
       (cycles [steady_adc 660 500, steady_adc 660 500, steady_adc 660 500] channel_state ! 0) = 3
   \<and> retry_state_of
       (cycles [steady_adc 660 500, steady_adc 660 500, steady_adc 660 500] channel_state ! 0)
       = EXHAUSTED
   \<and> \<not> (\<exists>d t. RunPump 0 d t \<in> set (snd (loop (steady_adc 660 500)
       (cycles [steady_adc 660 500, steady_adc 660 500, steady_adc 660 500] channel_state))))
   \<and> pump_attempts (fst (loop (steady_adc 660 500)
       (cycles [steady_adc 660 500, steady_adc 660 500, steady_adc 660 500] channel_state)) ! 0) = 3
   \<and> pump_attempts (fst (loop (steady_adc 150 500)
       (cycles [steady_adc 660 500, steady_adc 660 500, steady_adc 660 500] channel_state)) ! 0) = 0"
proof -
  define cs3 where "cs3 = cycles [steady_adc 660 500, steady_adc 660 500, steady_adc 660 500] channel_state"
  have i: "(0::nat) < NUMBER_OF_CHANNELS" by (simp add: NUMBER_OF_CHANNELS_def)
  note c0 = channel_state_fields[OF i] channel_state_inv(1)
  note d = dry_run[OF i]
  note d3 = dry_run(13-18)[OF i, folded cs3_def]
  have T: "pump_attempts (cycles [steady_adc 660 500] channel_state ! 0) = 1
    \<and> pump_attempts (cycles [steady_adc 660 500, steady_adc 660 500] channel_state ! 0) = 2
    \<and> pump_attempts (cs3 ! 0) = 3
    \<and> retry_state_of (cycles [steady_adc 660 500] channel_state ! 0) = DRY
    \<and> retry_state_of (cycles [steady_adc 660 500, steady_adc 660 500] channel_state ! 0) = DRY
    \<and> retry_state_of (cs3 ! 0) = EXHAUSTED
    \<and> (\<forall>cs adc. length cs = NUMBER_OF_CHANNELS
          \<and> moisture_level (fst (updateState adc cs) ! 0)
              < moisture_reference_level (fst (updateState adc cs) ! 0)
          \<and> pump_attempts (fst (updateState adc cs) ! 0)
              = max_pump_attempts (fst (updateState adc cs) ! 0)
          \<longrightarrow> \<not> (\<exists>d t. RunPump 0 d t \<in> set (snd (loop adc cs)))
              \<and> pump_attempts (fst (loop adc cs) ! 0) = max_pump_attempts (fst (loop adc cs) ! 0))
    \<and> (\<forall>cs adc. length cs = NUMBER_OF_CHANNELS
          \<and> moisture_reference_level (fst (updateState adc cs) ! 0)
              \<le> moisture_level (fst (updateState adc cs) ! 0)
          \<longrightarrow> pump_attempts (fst (loop adc cs) ! 0) = 0)"
    unfolding cs3_def
    by (rule three_dry_cycles_exhaust[OF c0(7) i c0(2) c0(1)]) (simp_all only: d, simp_all)
  have dlv: "moisture_level (fst (updateState (steady_adc 660 500) cs3) ! 0) = 0"
    and drf: "moisture_reference_level (fst (updateState (steady_adc 660 500) cs3) ! 0) = 50"
    and wlv: "moisture_level (fst (updateState (steady_adc 150 500) cs3) ! 0) = 99"
    and wrf: "moisture_reference_level (fst (updateState (steady_adc 150 500) cs3) ! 0) = 50"
    using i by (simp_all add: updateState_steady d3 convert_660 convert_150 almostEqual_def)
  have dat: "pump_attempts (fst (updateState (steady_adc 660 500) cs3) ! 0) = 3"
    and dmx: "max_pump_attempts (fst (updateState (steady_adc 660 500) cs3) ! 0) = 3"
    using i dlv drf
    by (simp_all add: updateState_nth d3 updateChannel_attempts[of _ "cs3 ! 0"] updateChannel_config)
  have ex: "\<not> (\<exists>d t. RunPump 0 d t \<in> set (snd (loop (steady_adc 660 500) cs3)))
      \<and> pump_attempts (fst (loop (steady_adc 660 500) cs3) ! 0)
          = max_pump_attempts (fst (loop (steady_adc 660 500) cs3) ! 0)"
  proof -
    have "moisture_level (fst (updateState (steady_adc 660 500) cs3) ! 0)
        < moisture_reference_level (fst (updateState (steady_adc 660 500) cs3) ! 0)"
      by (simp add: dlv drf)
    moreover have "pump_attempts (fst (updateState (steady_adc 660 500) cs3) ! 0)
        = max_pump_attempts (fst (updateState (steady_adc 660 500) cs3) ! 0)"
      by (simp add: dat dmx)
    ultimately show ?thesis using T d3(1) by blast
  qed
  have mx: "max_pump_attempts (fst (loop (steady_adc 660 500) cs3) ! 0) = 3"
    using i by (simp add: loop_config d3)
  have wet: "pump_attempts (fst (loop (steady_adc 150 500) cs3) ! 0) = 0"
  proof -
    have "moisture_reference_level (fst (updateState (steady_adc 150 500) cs3) ! 0)
        \<le> moisture_level (fst (updateState (steady_adc 150 500) cs3) ! 0)"
      by (simp add: wlv wrf)
    then show ?thesis using T d3(1) by blast
  qed
  show ?thesis unfolding cs3_def[symmetric] using T ex mx wet by simp
qed

text \<open>
  C3. \<open>convertMeasurementToPercent\<close> returns 99 for every raw input at or below the WET
  calibration and 0 for every raw input at or above the DRY calibration, and it never
  increases when the raw input increases. With WET = 150 and DRY = 660 it maps 150 to 99,
  660 to 0 and the midpoint 405 to 50, which is within one point of 49.
\<close>

theorem convertMeasurementToPercent_saturating_antitone:
  "(\<forall>m. uint m \<le> WET_MEASUREMENT \<longrightarrow> convertMeasurementToPercent m = 99)
   \<and> (\<forall>m. DRY_MEASUREMENT \<le> uint m \<longrightarrow> convertMeasurementToPercent m = 0)
   \<and> (\<forall>m1 m2. m1 \<le> m2 \<longrightarrow> convertMeasurementToPercent m2 \<le> convertMeasurementToPercent m1)
   \<and> WET_MEASUREMENT = 150 \<and> DRY_MEASUREMENT = 660
   \<and> convertMeasurementToPercent 150 = 99
   \<and> convertMeasurementToPercent 660 = 0
   \<and> convertMeasurementToPercent 405 = 50
   \<and> \<bar>uint (convertMeasurementToPercent 405) - 49\<bar> \<le> 1"
proof -
  have wet: "convertMeasurementToPercent m = 99" if "uint m \<le> WET_MEASUREMENT" for m
  proof -
    have "uint m \<le> uint (150 :: u16)" using that by (simp add: WET_MEASUREMENT_def)
    then have "m \<le> 150" by (simp only: word_le_def)
    then show ?thesis by (rule convert_wet)
  qed
  have dry: "convertMeasurementToPercent m = 0" if "DRY_MEASUREMENT \<le> uint m" for m
  proof -
    have "uint (660 :: u16) \<le> uint m" using that by (simp add: DRY_MEASUREMENT_def)
    then have "660 \<le> m" by (simp only: word_le_def)
    then show ?thesis by (rule convert_dry)
  qed
  have "convertMeasurementToPercent 150 = 99" by (rule convert_wet) simp
  moreover have "convertMeasurementToPercent 660 = 0" by (rule convert_dry) simp
  ultimately show ?thesis
    using wet dry convert_antimono
    by (simp add: convert_405 WET_MEASUREMENT_def DRY_MEASUREMENT_def)
qed

theorem convertMeasurementToPercent_saturating_antitone_witness:
  "uint (100 :: u16) \<le> WET_MEASUREMENT \<and> convertMeasurementToPercent 100 = 99
   \<and> DRY_MEASUREMENT \<le> uint (700 :: u16) \<and> convertMeasurementToPercent 700 = 0
   \<and> (300 :: u16) \<le> 500 \<and> convertMeasurementToPercent 500 \<le> convertMeasurementToPercent 300"
proof -
  note T = convertMeasurementToPercent_saturating_antitone
  have w: "uint (100 :: u16) \<le> WET_MEASUREMENT" by (simp add: WET_MEASUREMENT_def)
  have d: "DRY_MEASUREMENT \<le> uint (700 :: u16)" by (simp add: DRY_MEASUREMENT_def)
  have o: "(300 :: u16) \<le> 500" by simp
  have "convertMeasurementToPercent 100 = 99" using T w by blast
  moreover have "convertMeasurementToPercent 700 = 0" using T d by blast
  moreover have "convertMeasurementToPercent 500 \<le> convertMeasurementToPercent 300"
    using T o by blast
  ultimately show ?thesis using w d o by blast
qed


text \<open>
  C5. At the start of a cycle, if for every channel \<open>almostEqual\<close> accepts the new moisture
  percentage against the stored level and the new reference percentage against the stored
  reference, and no stored level is below its reference, then \<open>updateState\<close> returns false
  and the array it was given, and the cycle leaves the array as it was with an empty trace:
  no display refresh and no pump run.
\<close>

theorem quiet_cycle_does_nothing:
  assumes "reachable any_adc cs"
    and "\<forall>i<NUMBER_OF_CHANNELS.
           almostEqual (ucast (moisture_level (cs ! i)))
             (convertMeasurementToPercent (fst (readChannel (adc i) (cs ! i)))) 2
           \<and> almostEqual (ucast (moisture_reference_level (cs ! i)))
               (ucast (snd (readChannel (adc i) (cs ! i)) div 10)) 2
           \<and> \<not> moisture_level (cs ! i) < moisture_reference_level (cs ! i)"
  shows "updateState adc cs = (cs, False) \<and> loop adc cs = (cs, [])"
proof -
  have len: "length cs = NUMBER_OF_CHANNELS"
    and inv: "\<And>k. k < NUMBER_OF_CHANNELS \<Longrightarrow> channel_inv (cs ! k)"
    using reachable_inv[OF assms(1)] by simp_all
  have same: "updateChannel (adc k) (cs ! k) False = (cs ! k, False)" if "k < NUMBER_OF_CHANNELS" for k
  proof (rule updateChannel_unchanged)
    show "moisture_reference_level (cs ! k) \<le> moisture_level (cs ! k)"
      using assms(2) that by (simp add: not_less)
    then show "pump_attempts (cs ! k) = 0" using inv[OF that] by (simp add: channel_inv_def)
  qed (use assms(2) that in simp_all)
  have "fst (updateState adc cs) = cs"
  proof (rule nth_equalityI)
    show "length (fst (updateState adc cs)) = length cs" by (rule updateState_length)
    fix k assume "k < length (fst (updateState adc cs))"
    then have "k < NUMBER_OF_CHANNELS" by (simp add: updateState_length len)
    then show "fst (updateState adc cs) ! k = cs ! k"
      by (simp add: updateState_nth len same)
  qed
  moreover have "\<not> snd (updateState adc cs)"
    by (simp add: updateState_flag same)
  ultimately have "updateState adc cs = (cs, False)" by (simp add: prod_eq_iff)
  then show ?thesis by (simp add: loop_def)
qed

theorem quiet_cycle_does_nothing_witness:
  "reachable any_adc channel_state
   \<and> updateState (steady_adc 150 250) channel_state = (channel_state, False)
   \<and> loop (steady_adc 150 250) channel_state = (channel_state, [])"
proof -
  have r: "reachable any_adc channel_state" by (rule reachable_init)
  have h: "\<forall>i<NUMBER_OF_CHANNELS.
           almostEqual (ucast (moisture_level (channel_state ! i)))
             (convertMeasurementToPercent (fst (readChannel (steady_adc 150 250 i) (channel_state ! i)))) 2
           \<and> almostEqual (ucast (moisture_reference_level (channel_state ! i)))
               (ucast (snd (readChannel (steady_adc 150 250 i) (channel_state ! i)) div 10)) 2
           \<and> \<not> moisture_level (channel_state ! i) < moisture_reference_level (channel_state ! i)"
  proof (intro allI impI)
    fix i assume i: "i < NUMBER_OF_CHANNELS"
    have rd: "readChannel (steady_adc 150 250 i) (channel_state ! i) = (150, 250)"
      by (rule readChannel_steady) (simp_all add: channel_state_fields[OF i])
    show "almostEqual (ucast (moisture_level (channel_state ! i)))
             (convertMeasurementToPercent (fst (readChannel (steady_adc 150 250 i) (channel_state ! i)))) 2
           \<and> almostEqual (ucast (moisture_reference_level (channel_state ! i)))
               (ucast (snd (readChannel (steady_adc 150 250 i) (channel_state ! i)) div 10)) 2
           \<and> \<not> moisture_level (channel_state ! i) < moisture_reference_level (channel_state ! i)"
      by (simp add: rd convert_150 channel_state_fields[OF i] almostEqual_def)
  qed
  show ?thesis using quiet_cycle_does_nothing[OF r h] r by simp
qed

text \<open>
  C6. Whenever some channel has its moisture level below its reference after sampling,
  \<open>updateState\<close> returns true, whether or not any stored value changed; the cycle then
  starts with a display refresh of the sampled state and goes through \<open>runPumps\<close>.
\<close>

theorem dry_channel_forces_update:
  assumes "length cs = NUMBER_OF_CHANNELS" and "i < NUMBER_OF_CHANNELS"
    and "moisture_level (fst (updateState adc cs) ! i)
           < moisture_reference_level (fst (updateState adc cs) ! i)"
  shows "snd (updateState adc cs)
    \<and> snd (loop adc cs) =
        Refresh (map (\<lambda>k. displayRow k (fst (updateState adc cs) ! k)) [0..<NUMBER_OF_CHANNELS])
          # snd (runPumps (fst (updateState adc cs)))
    \<and> fst (loop adc cs) = fst (runPumps (fst (updateState adc cs)))"
  using updateState_flag_dry[OF assms(2,1,3)] by (simp add: loop_eq updateDisplay_def)

theorem dry_channel_forces_update_witness:
  "retry_state_of
     (cycles [steady_adc 660 500, steady_adc 660 500, steady_adc 660 500] channel_state ! 0) = EXHAUSTED
   \<and> moisture_level
       (fst (updateState (steady_adc 660 500)
          (cycles [steady_adc 660 500, steady_adc 660 500, steady_adc 660 500] channel_state)) ! 0)
     = moisture_level
         (cycles [steady_adc 660 500, steady_adc 660 500, steady_adc 660 500] channel_state ! 0)
   \<and> moisture_reference_level
       (fst (updateState (steady_adc 660 500)
          (cycles [steady_adc 660 500, steady_adc 660 500, steady_adc 660 500] channel_state)) ! 0)
     = moisture_reference_level
         (cycles [steady_adc 660 500, steady_adc 660 500, steady_adc 660 500] channel_state ! 0)
   \<and> snd (updateState (steady_adc 660 500)
       (cycles [steady_adc 660 500, steady_adc 660 500, steady_adc 660 500] channel_state))
   \<and> hd (snd (loop (steady_adc 660 500)
       (cycles [steady_adc 660 500, steady_adc 660 500, steady_adc 660 500] channel_state)))
     = Refresh (map (\<lambda>k. displayRow k
         (fst (updateState (steady_adc 660 500)
           (cycles [steady_adc 660 500, steady_adc 660 500, steady_adc 660 500] channel_state)) ! k))
         [0..<NUMBER_OF_CHANNELS])"
proof -
  define cs3 where "cs3 = cycles [steady_adc 660 500, steady_adc 660 500, steady_adc 660 500] channel_state"
  have i: "(0::nat) < NUMBER_OF_CHANNELS" by (simp add: NUMBER_OF_CHANNELS_def)
  note d = dry_run(13-18)[OF i, folded cs3_def]
  have lv: "moisture_level (fst (updateState (steady_adc 660 500) cs3) ! 0) = 0"
    and rf: "moisture_reference_level (fst (updateState (steady_adc 660 500) cs3) ! 0) = 50"
    using i by (simp_all add: updateState_steady d convert_660 almostEqual_def)
  have dry: "moisture_level (fst (updateState (steady_adc 660 500) cs3) ! 0)
      < moisture_reference_level (fst (updateState (steady_adc 660 500) cs3) ! 0)"
    by (simp add: lv rf)
  note T = dry_channel_forces_update[OF d(1) i dry]
  have "retry_state_of (cs3 ! 0) = EXHAUSTED" by (simp add: retry_state_of_def d)
  then show ?thesis using T lv rf d unfolding cs3_def[symmetric] by simp
qed

text \<open>
  C7. In a cycle in which \<open>updateState\<close> returns true, the trace is the display refresh
  followed by the pump runs and nothing else. The refresh shows, for every channel, the
  attempt counter as \<open>updateState\<close> left it: for a channel whose pump then runs, the counter
  after the cycle is the shown value plus one; for every other channel it is the shown
  value.
\<close>

theorem refresh_precedes_pump_runs:
  assumes "length cs = NUMBER_OF_CHANNELS" and "snd (updateState adc cs)"
  shows "snd (loop adc cs) =
      Refresh (map (\<lambda>k. displayRow k (fst (updateState adc cs) ! k)) [0..<NUMBER_OF_CHANNELS])
        # snd (runPumps (fst (updateState adc cs)))
    \<and> (\<forall>e \<in> set (snd (runPumps (fst (updateState adc cs)))). \<exists>k d t. e = RunPump k d t)
    \<and> (\<forall>i<NUMBER_OF_CHANNELS.
          row_attempts (map (\<lambda>k. displayRow k (fst (updateState adc cs) ! k))
              [0..<NUMBER_OF_CHANNELS] ! i)
            = pump_attempts (fst (updateState adc cs) ! i)
          \<and> (if \<exists>d t. RunPump i d t \<in> set (snd (loop adc cs))
             then unat (pump_attempts (fst (loop adc cs) ! i)) =
                    unat (pump_attempts (fst (updateState adc cs) ! i)) + 1
             else pump_attempts (fst (loop adc cs) ! i) =
                    pump_attempts (fst (updateState adc cs) ! i)))"
proof -
  have tr: "snd (loop adc cs) =
      Refresh (map (\<lambda>k. displayRow k (fst (updateState adc cs) ! k)) [0..<NUMBER_OF_CHANNELS])
        # snd (runPumps (fst (updateState adc cs)))"
    using assms(2) by (simp add: loop_trace updateDisplay_def)
  have only: "\<forall>e \<in> set (snd (runPumps (fst (updateState adc cs)))). \<exists>k d t. e = RunPump k d t"
    using runPumps_trace_only_pumps by blast
  have per: "row_attempts (map (\<lambda>k. displayRow k (fst (updateState adc cs) ! k))
              [0..<NUMBER_OF_CHANNELS] ! i)
            = pump_attempts (fst (updateState adc cs) ! i)
          \<and> (if \<exists>d t. RunPump i d t \<in> set (snd (loop adc cs))
             then unat (pump_attempts (fst (loop adc cs) ! i)) =
                    unat (pump_attempts (fst (updateState adc cs) ! i)) + 1
             else pump_attempts (fst (loop adc cs) ! i) =
                    pump_attempts (fst (updateState adc cs) ! i))" if i: "i < NUMBER_OF_CHANNELS" for i
  proof -
    have us: "fst (updateState adc cs) ! i = fst (updateChannel (adc i) (cs ! i) False)"
      using assms(1) i by (simp add: updateState_nth)
    have lp: "fst (loop adc cs) ! i = fst (runPump i (fst (updateState adc cs) ! i))"
      using assms(1) i by (simp add: loop_nth us)
    have shown: "row_attempts (map (\<lambda>k. displayRow k (fst (updateState adc cs) ! k))
              [0..<NUMBER_OF_CHANNELS] ! i) = pump_attempts (fst (updateState adc cs) ! i)"
      using i by (simp add: displayRow_def)
    show ?thesis
      unfolding shown loop_trace_RunPump[OF assms(1) i] lp runPump_attempts
      using unat_inc_below(1)[of "pump_attempts (fst (updateState adc cs) ! i)"
          "max_pump_attempts (fst (updateState adc cs) ! i)"]
      by simp
  qed
  show ?thesis using tr only per by blast
qed

theorem refresh_precedes_pump_runs_witness:
  "snd (updateState (steady_adc 660 500) channel_state)
   \<and> hd (snd (loop (steady_adc 660 500) channel_state)) =
       Refresh (map (\<lambda>k. displayRow k (fst (updateState (steady_adc 660 500) channel_state) ! k))
          [0..<NUMBER_OF_CHANNELS])
   \<and> row_attempts (map (\<lambda>k. displayRow k (fst (updateState (steady_adc 660 500) channel_state) ! k))
          [0..<NUMBER_OF_CHANNELS] ! 0) = 0
   \<and> (\<exists>d t. RunPump 0 d t \<in> set (tl (snd (loop (steady_adc 660 500) channel_state))))
   \<and> unat (pump_attempts (fst (loop (steady_adc 660 500) channel_state) ! 0)) = 1"
proof -
  have i: "(0::nat) < NUMBER_OF_CHANNELS" by (simp add: NUMBER_OF_CHANNELS_def)
  note c0 = channel_state_fields[OF i] channel_state_inv(1)
  have lv: "moisture_level (fst (updateState (steady_adc 660 500) channel_state) ! 0) = 0"
    and rf: "moisture_reference_level (fst (updateState (steady_adc 660 500) channel_state) ! 0) = 50"
    using i by (simp_all add: updateState_steady c0 convert_660 almostEqual_def)
  have at: "pump_attempts (fst (updateState (steady_adc 660 500) channel_state) ! 0) = 0"
    and mx: "max_pump_attempts (fst (updateState (steady_adc 660 500) channel_state) ! 0) = 3"
    using i by (simp_all add: updateState_nth c0 updateChannel_attempts updateChannel_config)
  have flag: "snd (updateState (steady_adc 660 500) channel_state)"
    by (rule updateState_flag_dry[OF i c0(7)]) (simp add: lv rf)
  note T = refresh_precedes_pump_runs[OF c0(7) flag]
  have run: "\<exists>d t. RunPump 0 d t \<in> set (snd (loop (steady_adc 660 500) channel_state))"
    by (simp add: loop_trace_RunPump[OF c0(7) i] lv rf at mx)
  then have run': "\<exists>d t. RunPump 0 d t \<in> set (tl (snd (loop (steady_adc 660 500) channel_state)))"
    using T by auto
  have "unat (pump_attempts (fst (loop (steady_adc 660 500) channel_state) ! 0)) = 1"
    using T i run by (simp add: at)
  moreover have "row_attempts (map (\<lambda>k. displayRow k (fst (updateState (steady_adc 660 500) channel_state) ! k))
          [0..<NUMBER_OF_CHANNELS] ! 0) = 0"
    using T i by (simp add: at)
  ultimately show ?thesis using T flag run' by simp
qed




text \<open>
  C9. With \<open>NUMBER_OF_MEASUREMENT_SAMPLES = 4\<close> and every reading of the sensor and of
  the reference potentiometer at most 1023, the two 16 bit accumulators hold the exact sum
  of the readings after every number of iterations (they never wrap), and the raw values
  of the channel are the exact integer averages of the four readings.
\<close>

theorem sampling_sums_do_not_wrap:
  assumes "\<forall>j<NUMBER_OF_MEASUREMENT_SAMPLES.
             unat (rd j (sensor_analog_pin c)) \<le> 1023 \<and> unat (rd j MOIST_REF) \<le> 1023"
  shows "NUMBER_OF_MEASUREMENT_SAMPLES = 4
    \<and> (\<forall>n\<le>NUMBER_OF_MEASUREMENT_SAMPLES.
          sample_loop rd (sensor_analog_pin c) NUMBER_OF_MEASUREMENT_SAMPLES 0 (0, 0) =
            sample_loop rd (sensor_analog_pin c) NUMBER_OF_MEASUREMENT_SAMPLES n
              (sample_loop rd (sensor_analog_pin c) n 0 (0, 0))
          \<and> unat (fst (sample_loop rd (sensor_analog_pin c) n 0 (0, 0))) =
              (\<Sum>j<n. unat (rd j (sensor_analog_pin c)))
          \<and> unat (snd (sample_loop rd (sensor_analog_pin c) n 0 (0, 0))) =
              (\<Sum>j<n. unat (rd j MOIST_REF)))
    \<and> unat (fst (readChannel rd c)) =
          (\<Sum>j<NUMBER_OF_MEASUREMENT_SAMPLES. unat (rd j (sensor_analog_pin c))) div 4
    \<and> unat (snd (readChannel rd c)) =
          (\<Sum>j<NUMBER_OF_MEASUREMENT_SAMPLES. unat (rd j MOIST_REF)) div 4"
proof -
  have prefix: "unat (fst (sample_loop rd (sensor_analog_pin c) n 0 (0, 0))) =
              (\<Sum>j<n. unat (rd j (sensor_analog_pin c)))
          \<and> unat (snd (sample_loop rd (sensor_analog_pin c) n 0 (0, 0))) =
              (\<Sum>j<n. unat (rd j MOIST_REF))" if "n \<le> NUMBER_OF_MEASUREMENT_SAMPLES" for n
  proof -
    have "\<forall>k<n. unat (rd k (sensor_analog_pin c)) \<le> 1023 \<and> unat (rd k MOIST_REF) \<le> 1023"
      using assms that by simp
    moreover have "n \<le> 64" using that by (simp add: NUMBER_OF_MEASUREMENT_SAMPLES_def)
    ultimately show ?thesis
      by (intro sample_loop_exact) simp_all
  qed
  show ?thesis
    using prefix sample_loop_split[of 0 _ NUMBER_OF_MEASUREMENT_SAMPLES rd "sensor_analog_pin c" 0 0]
      readChannel_exact[OF assms]
    by (simp add: NUMBER_OF_MEASUREMENT_SAMPLES_def)
qed

theorem sampling_sums_do_not_wrap_witness:
  "unat (fst (readChannel (steady_adc 1023 1000 0) (channel_state ! 0))) = 1023
   \<and> unat (snd (readChannel (steady_adc 1023 1000 0) (channel_state ! 0))) = 1000
   \<and> unat (fst (sample_loop (steady_adc 1023 1000 0) (sensor_analog_pin (channel_state ! 0)) 3 0 (0, 0))) = 3069"
proof -
  have h: "\<forall>j<NUMBER_OF_MEASUREMENT_SAMPLES.
      unat (steady_adc 1023 1000 0 j (sensor_analog_pin (channel_state ! 0))) \<le> 1023
      \<and> unat (steady_adc 1023 1000 0 j MOIST_REF) \<le> 1023"
    by (simp add: steady_adc_def)
  have p: "sensor_analog_pin (channel_state ! 0) \<noteq> MOIST_REF"
    by (simp add: channel_state_def MOIST_REF_def)
  have three: "(3::nat) \<le> NUMBER_OF_MEASUREMENT_SAMPLES"
    by (simp add: NUMBER_OF_MEASUREMENT_SAMPLES_def)
  note T = sampling_sums_do_not_wrap[OF h]
  have "unat (fst (sample_loop (steady_adc 1023 1000 0) (sensor_analog_pin (channel_state ! 0)) 3 0 (0, 0)))
      = (\<Sum>j<3. unat (steady_adc 1023 1000 0 j (sensor_analog_pin (channel_state ! 0))))"
    using T three by blast
  then have "unat (fst (sample_loop (steady_adc 1023 1000 0) (sensor_analog_pin (channel_state ! 0)) 3 0 (0, 0))) = 3069"
    using p by (simp add: steady_adc_def)
  moreover have "unat (fst (readChannel (steady_adc 1023 1000 0) (channel_state ! 0))) = 1023"
    using T p by (simp add: steady_adc_def)
  moreover have "unat (snd (readChannel (steady_adc 1023 1000 0) (channel_state ! 0))) = 1000"
    using T by (simp add: steady_adc_def)
  ultimately show ?thesis by simp
qed

text \<open>
  C10. With readings of at most 1023, every array the firmware can hold at the start of a
  cycle, and the array \<open>updateState\<close> makes of it, has every moisture level at most 99 and
  every reference level at most 102. A channel whose reference is above 99 after sampling
  is below its reference and keeps its attempt count in \<open>updateState\<close>. Over any run of
  cycles that all leave the reference of a channel above 99, the attempt count grows by
  one per cycle up to \<open>max_pump_attempts\<close> and stays there: when the run is non-empty and
  at least \<open>max_pump_attempts\<close> long, the channel is EXHAUSTED at its end.
\<close>

theorem reference_above_99_never_recovers:
  assumes "reachable adc_10bit cs" and "i < NUMBER_OF_CHANNELS"
  shows "moisture_level (cs ! i) \<le> 99 \<and> moisture_reference_level (cs ! i) \<le> 102
    \<and> (\<forall>adc. adc_10bit adc \<longrightarrow>
          moisture_level (fst (updateState adc cs) ! i) \<le> 99
          \<and> moisture_reference_level (fst (updateState adc cs) ! i) \<le> 102)
    \<and> (\<forall>adc. 99 < moisture_reference_level (fst (updateState adc cs) ! i) \<longrightarrow>
          moisture_level (fst (updateState adc cs) ! i)
            < moisture_reference_level (fst (updateState adc cs) ! i)
          \<and> pump_attempts (fst (updateState adc cs) ! i) = pump_attempts (cs ! i))
    \<and> (\<forall>adcs.
          (\<forall>k<length adcs. 99 < moisture_reference_level (cycles (take (Suc k) adcs) cs ! i)) \<longrightarrow>
          unat (pump_attempts (cycles adcs cs ! i)) =
            min (unat (pump_attempts (cs ! i)) + length adcs) (unat (max_pump_attempts (cs ! i)))
          \<and> (adcs \<noteq> [] \<and> unat (max_pump_attempts (cs ! i)) \<le> length adcs \<longrightarrow>
               retry_state_of (cycles adcs cs ! i) = EXHAUSTED))"
proof -
  have len: "length cs = NUMBER_OF_CHANNELS" and inv: "channel_inv (cs ! i)"
    using reachable_inv[OF assms(1)] assms(2) by simp_all
  have lv: "moisture_level (cs ! i) \<le> 99" using inv by (simp add: channel_inv_def)
  have rf: "moisture_reference_level (cs ! i) \<le> 102"
    using assms by (rule reachable_reference_le_102)
  have us: "fst (updateState adc cs) ! i = fst (updateChannel (adc i) (cs ! i) False)" for adc
    using len assms(2) by (simp add: updateState_nth)
  have lv': "moisture_level (fst (updateState adc cs) ! i) \<le> 99" for adc
    unfolding us using lv by (rule updateChannel_level_le_99)
  have rf': "moisture_reference_level (fst (updateState adc cs) ! i) \<le> 102" if "adc_10bit adc" for adc
  proof -
    have "\<forall>j p. adc i j p \<le> 1023" using that by (simp add: adc_10bit_def)
    then show ?thesis unfolding us using rf by (rule updateChannel_reference_le_102)
  qed
  have hot: "moisture_level (fst (updateState adc cs) ! i)
            < moisture_reference_level (fst (updateState adc cs) ! i)
          \<and> pump_attempts (fst (updateState adc cs) ! i) = pump_attempts (cs ! i)"
    if "99 < moisture_reference_level (fst (updateState adc cs) ! i)" for adc
  proof -
    have d: "moisture_level (fst (updateState adc cs) ! i)
        < moisture_reference_level (fst (updateState adc cs) ! i)"
      using lv' that by (rule u16_le_99_less)
    then have "\<not> moisture_reference_level (fst (updateChannel (adc i) (cs ! i) False))
        \<le> moisture_level (fst (updateChannel (adc i) (cs ! i) False))"
      by (simp add: us not_le)
    then have "pump_attempts (fst (updateChannel (adc i) (cs ! i) False)) = pump_attempts (cs ! i)"
      using updateChannel_attempts[of "adc i" "cs ! i" False] by simp
    then show ?thesis using d by (simp add: us)
  qed
  have run: "unat (pump_attempts (cycles adcs cs ! i)) =
            min (unat (pump_attempts (cs ! i)) + length adcs) (unat (max_pump_attempts (cs ! i)))
          \<and> (adcs \<noteq> [] \<and> unat (max_pump_attempts (cs ! i)) \<le> length adcs \<longrightarrow>
               retry_state_of (cycles adcs cs ! i) = EXHAUSTED)"
    if h: "\<forall>k<length adcs. 99 < moisture_reference_level (cycles (take (Suc k) adcs) cs ! i)"
    for adcs
  proof -
    note A = stuck_dry_cycles[OF len assms(2) inv h]
    have "retry_state_of (cycles adcs cs ! i) = EXHAUSTED"
      if ne: "adcs \<noteq> []" and long: "unat (max_pump_attempts (cs ! i)) \<le> length adcs"
    proof -
      have "length adcs - 1 < length adcs" using ne by simp
      then have "99 < moisture_reference_level (cycles (take (Suc (length adcs - 1)) adcs) cs ! i)"
        using h by blast
      then have hi: "99 < moisture_reference_level (cycles adcs cs ! i)" using ne by simp
      note I = cycles_inv[OF len assms(2) inv, of adcs]
      have "moisture_level (cycles adcs cs ! i) \<le> 99" using I(1) by (simp add: channel_inv_def)
      then have d: "moisture_level (cycles adcs cs ! i) < moisture_reference_level (cycles adcs cs ! i)"
        using hi by (rule u16_le_99_less)
      have "unat (pump_attempts (cycles adcs cs ! i)) = unat (max_pump_attempts (cycles adcs cs ! i))"
        using A long by (simp add: I(2))
      then have "\<not> pump_attempts (cycles adcs cs ! i) < max_pump_attempts (cycles adcs cs ! i)"
        by (simp add: word_less_nat_alt)
      then show ?thesis using d by (simp add: retry_state_of_def not_le)
    qed
    then show ?thesis using A by blast
  qed
  show ?thesis using lv rf lv' rf' hot run by blast
qed

theorem reference_above_99_never_recovers_witness:
  "reachable adc_10bit channel_state
   \<and> adc_10bit (steady_adc 150 1023)
   \<and> moisture_reference_level (fst (updateState (steady_adc 150 1023) channel_state) ! 0) = 102
   \<and> moisture_level (fst (updateState (steady_adc 150 1023) channel_state) ! 0) = 99
   \<and> pump_attempts (fst (updateState (steady_adc 150 1023) channel_state) ! 0) = 0
   \<and> unat (pump_attempts (cycles (replicate 2 (steady_adc 150 1023)) channel_state ! 0)) = 2
   \<and> unat (pump_attempts (cycles (replicate 7 (steady_adc 150 1023)) channel_state ! 0)) = 3
   \<and> retry_state_of (cycles (replicate 7 (steady_adc 150 1023)) channel_state ! 0) = EXHAUSTED"
proof -
  have r: "reachable adc_10bit channel_state" by (rule reachable_init)
  have i: "(0::nat) < NUMBER_OF_CHANNELS" by (simp add: NUMBER_OF_CHANNELS_def)
  have ten: "adc_10bit (steady_adc 150 1023)" by (simp add: adc_10bit_def steady_adc_def)
  note c0 = channel_state_fields[OF i] channel_state_inv(1)
  note T = reference_above_99_never_recovers[OF r i]
  have rf: "moisture_reference_level (fst (updateState (steady_adc 150 1023) channel_state) ! 0) = 102"
    and lv: "moisture_level (fst (updateState (steady_adc 150 1023) channel_state) ! 0) = 99"
    using i by (simp_all add: updateState_steady c0 convert_150 almostEqual_def)
  have "99 < moisture_reference_level (fst (updateState (steady_adc 150 1023) channel_state) ! 0)"
    by (simp add: rf)
  then have "pump_attempts (fst (updateState (steady_adc 150 1023) channel_state) ! 0)
      = pump_attempts (channel_state ! 0)"
    using T by blast
  then have at: "pump_attempts (fst (updateState (steady_adc 150 1023) channel_state) ! 0) = 0"
    by (simp add: c0)
  have h: "\<forall>k<length (replicate n (steady_adc 150 1023)).
      99 < moisture_reference_level
        (cycles (take (Suc k) (replicate n (steady_adc 150 1023))) channel_state ! 0)" for n
  proof (intro allI impI)
    fix k assume "k < length (replicate n (steady_adc 150 1023))"
    then have "take (Suc k) (replicate n (steady_adc 150 1023)) = replicate (Suc k) (steady_adc 150 1023)"
      by (simp add: min_def)
    then show "99 < moisture_reference_level
        (cycles (take (Suc k) (replicate n (steady_adc 150 1023))) channel_state ! 0)"
      by (simp only: hot_run[OF i]) simp
  qed
  have R: "unat (pump_attempts (cycles (replicate n (steady_adc 150 1023)) channel_state ! 0)) =
      min (unat (pump_attempts (channel_state ! 0)) + length (replicate n (steady_adc 150 1023)))
        (unat (max_pump_attempts (channel_state ! 0)))
      \<and> (replicate n (steady_adc 150 1023) \<noteq> []
          \<and> unat (max_pump_attempts (channel_state ! 0)) \<le> length (replicate n (steady_adc 150 1023)) \<longrightarrow>
         retry_state_of (cycles (replicate n (steady_adc 150 1023)) channel_state ! 0) = EXHAUSTED)" for n
    using T h[of n] by blast
  have "unat (pump_attempts (cycles (replicate 2 (steady_adc 150 1023)) channel_state ! 0)) = 2"
    using R[of 2] by (simp add: c0)
  moreover have "unat (pump_attempts (cycles (replicate 7 (steady_adc 150 1023)) channel_state ! 0)) = 3"
    using R[of 7] by (simp add: c0)
  moreover have "retry_state_of (cycles (replicate 7 (steady_adc 150 1023)) channel_state ! 0) = EXHAUSTED"
    using R[of 7] by (simp add: c0)
  ultimately show ?thesis using r ten rf lv at by simp
qed

end
